theory Spec2Isabelle
  imports Main "HOL-Library.Word"
begin

unbundle bit_operations_syntax

section \<open>Bytes, errors and readers\<close>

text \<open>
  The source file is \<^verbatim>\<open>factory/video_packet.go\<close>. A Go \<^verbatim>\<open>[]byte\<close> is a list of 8-bit words.
  Go's \<^verbatim>\<open>error\<close> values that matter here are \<^verbatim>\<open>io.EOF\<close>, the two errors
  \<^verbatim>\<open>io.ReadFull\<close> can produce by itself, and any other error a reader may report.
\<close>

type_synonym byte = "8 word"

datatype error = EOF | ErrUnexpectedEOF | ErrShortBuffer | ErrOther

text \<open>
  An \<^verbatim>\<open>io.Reader\<close> is a state \<open>'r\<close> together with its \<^verbatim>\<open>Read\<close> method: asked for at most
  \<open>k\<close> bytes it yields the bytes it copies, an optional error and its next state.
  \<open>Read rd r p\<close> is the call \<^verbatim>\<open>r.Read(p)\<close>: the first \<open>n\<close> bytes of the buffer \<open>p\<close> are
  overwritten, the others keep their old content, and \<open>n\<close> never exceeds \<open>len(p)\<close>.
\<close>

type_synonym 'r reader = "'r \<Rightarrow> nat \<Rightarrow> byte list \<times> error option \<times> 'r"

definition Read :: "'r reader \<Rightarrow> 'r \<Rightarrow> byte list \<Rightarrow> byte list \<times> nat \<times> error option \<times> 'r" where
  "Read rd r p =
     (case rd r (length p) of (bs, err, r') \<Rightarrow>
        let n = min (length bs) (length p) in (take n bs @ drop n p, n, err, r'))"

text \<open>
  A reader over a finite byte sequence that returns full reads and fails only with
  end-of-stream (the behaviour of Go's \<^verbatim>\<open>bytes.Reader\<close>): at the end it returns
  \<open>0, io.EOF\<close>, otherwise it copies as many of the remaining bytes as fit.
\<close>

definition listReader :: "byte list reader" where
  "listReader s k = (if s = [] then ([], Some EOF, []) else (take k s, None, drop k s))"

text \<open>\<^verbatim>\<open>binary.BigEndian.Uint32\<close> on a 4-byte slice.\<close>

definition Uint32 :: "byte list \<Rightarrow> 32 word" where
  "Uint32 b = (ucast (b ! 3) OR push_bit 8 (ucast (b ! 2))
               OR push_bit 16 (ucast (b ! 1)) OR push_bit 24 (ucast (b ! 0)))"

section \<open>The frame parser\<close>

text \<open>
  The inner loop of \<^verbatim>\<open>parseVideoPacketRequest\<close> (lines 104-117): read one byte at a time
  into \<open>proto\<close> until it is \<open>0x26\<close>. An \<^verbatim>\<open>io.EOF\<close> returns; any other error is logged and
  the loop goes on. The loop has no bound of its own, so not returning is \<open>None\<close>.
\<close>

partial_function (option) scanHeader ::
  "'r reader \<Rightarrow> 'r \<Rightarrow> byte list \<Rightarrow> ((error + byte list) \<times> 'r) option" where
  "scanHeader rd r proto =
     (case Read rd r proto of (proto', n, err, r') \<Rightarrow>
        (case err of
           Some e \<Rightarrow> if e = EOF then Some (Inl e, r') else scanHeader rd r' proto'
         | None \<Rightarrow> if proto' ! 0 = 0x26 then Some (Inr proto', r')
                   else scanHeader rd r' proto'))"

text \<open>
  One pass of the outer loop after the header byte is a sequence of reads, each of which
  goes on (\<open>Next\<close>), restarts the outer loop (\<^verbatim>\<open>continue\<close>) or returns an error.
\<close>

datatype 'a step = Next 'a | Continue | Fail error

definition andThen :: "'a step \<times> 'r \<Rightarrow> ('a \<Rightarrow> 'r \<Rightarrow> 'b step \<times> 'r) \<Rightarrow> 'b step \<times> 'r" where
  "andThen m f =
     (case m of (Next x, r) \<Rightarrow> f x r | (Continue, r) \<Rightarrow> (Continue, r) | (Fail e, r) \<Rightarrow> (Fail e, r))"

text \<open>
  Lines 118-133, the 4 length bytes. \<open>dataLength\<close> is a \<^verbatim>\<open>uint64\<close>: the subtraction wraps
  and the test \<^verbatim>\<open>dataLength < 0\<close> is the unsigned comparison of the source. After an error
  other than \<^verbatim>\<open>io.EOF\<close> the code goes on with \<open>dataLength = 0\<close>.
\<close>

definition readLength :: "'r reader \<Rightarrow> 'r \<Rightarrow> (byte list \<times> 64 word) step \<times> 'r" where
  "readLength rd r =
     (case Read rd r (replicate 4 0) of (lengthb, n, err, r') \<Rightarrow>
        (case err of
           Some e \<Rightarrow> if e = EOF then (Fail e, r') else (Next (lengthb, 0), r')
         | None \<Rightarrow>
             let dataLength = (ucast (Uint32 lengthb) :: 64 word) - 17 in
             if dataLength < 0 then (Continue, r') else (Next (lengthb, dataLength), r')))"

text \<open>Lines 134-147, the version byte.\<close>

definition readVersion :: "'r reader \<Rightarrow> 'r \<Rightarrow> byte list step \<times> 'r" where
  "readVersion rd r =
     (case Read rd r (replicate 1 0) of (version, n, err, r') \<Rightarrow>
        (case err of
           Some e \<Rightarrow> if e = EOF then (Fail e, r') else (Next version, r')
         | None \<Rightarrow> if version ! 0 \<noteq> 1 then (Continue, r') else (Next version, r')))"

text \<open>Lines 148-157, the 10 reserved bytes.\<close>

definition readReserved :: "'r reader \<Rightarrow> 'r \<Rightarrow> byte list step \<times> 'r" where
  "readReserved rd r =
     (case Read rd r (replicate 10 0) of (reserved, n, err, r') \<Rightarrow>
        (case err of
           Some e \<Rightarrow> if e = EOF then (Fail e, r') else (Next reserved, r')
         | None \<Rightarrow> (Next reserved, r')))"

text \<open>Lines 158-174, the payload.\<close>

definition readData :: "'r reader \<Rightarrow> 'r \<Rightarrow> 64 word \<Rightarrow> byte list step \<times> 'r" where
  "readData rd r dataLength =
     (if dataLength > 0 then
        if dataLength > 1024 * 1024 * 10 then (Continue, r)
        else
          (case Read rd r (replicate (unat dataLength) 0) of (data, n, err, r') \<Rightarrow>
             (case err of
                Some e \<Rightarrow> if e = EOF then (Fail e, r') else (Next data, r')
              | None \<Rightarrow> (Next data, r')))
      else (Next [], r))"

text \<open>Lines 175-187, the tail byte.\<close>

definition readTail :: "'r reader \<Rightarrow> 'r \<Rightarrow> byte list step \<times> 'r" where
  "readTail rd r =
     (case Read rd r (replicate 1 0) of (tail, n, err, r') \<Rightarrow>
        (case err of
           Some e \<Rightarrow> if e = EOF then (Fail e, r') else (Next tail, r')
         | None \<Rightarrow> if tail ! 0 \<noteq> 0x28 then (Continue, r') else (Next tail, r')))"

text \<open>Lines 118-197: the body of the outer loop once \<open>proto\<close> holds the header byte.\<close>

definition parseBody :: "'r reader \<Rightarrow> 'r \<Rightarrow> byte list \<Rightarrow> byte list step \<times> 'r" where
  "parseBody rd r proto =
     andThen (readLength rd r) (\<lambda>(lengthb, dataLength) r.
     andThen (readVersion rd r) (\<lambda>version r.
     andThen (readReserved rd r) (\<lambda>reserved r.
     andThen (readData rd r dataLength) (\<lambda>data r.
     andThen (readTail rd r) (\<lambda>tail r.
       (Next (proto @ lengthb @ version @ reserved @ data @ tail), r))))))"

text \<open>\<^verbatim>\<open>parseVideoPacketRequest\<close>, lines 100-200.\<close>

partial_function (option) parseVideoPacketRequest ::
  "'r reader \<Rightarrow> 'r \<Rightarrow> ((error + byte list) \<times> 'r) option" where
  "parseVideoPacketRequest rd r =
     Option.bind (scanHeader rd r (replicate 1 0)) (\<lambda>(h, r1).
       case h of
         Inl e \<Rightarrow> Some (Inl e, r1)
       | Inr proto \<Rightarrow>
           (case parseBody rd r1 proto of
              (Next reqData, r') \<Rightarrow> Some (Inr reqData, r')
            | (Continue, r') \<Rightarrow> parseVideoPacketRequest rd r'
            | (Fail e, r') \<Rightarrow> Some (Inl e, r')))"

section \<open>The handlers\<close>

text \<open>
  What a handler does to the outside is recorded as it happens: the buffers sent on the
  shared channel \<^verbatim>\<open>f.d.C\<close>, the number of calls of \<^verbatim>\<open>deliver.NewLongConnSender\<close>, and
  the buffers sent on the channel \<^verbatim>\<open>sender.Data()\<close> of the connection's sender.
\<close>

record effects =
  delivered :: "byte list list"
  senders :: nat
  senderData :: "byte list list"

text \<open>\<^verbatim>\<open>handleVideoPacketRequest\<close>, lines 50-60.\<close>

partial_function (option) handleVideoPacketRequest ::
  "'r reader \<Rightarrow> 'r \<Rightarrow> effects \<Rightarrow> (effects \<times> 'r) option" where
  "handleVideoPacketRequest rd r eff =
     Option.bind (parseVideoPacketRequest rd r) (\<lambda>(res, r').
       case res of
         Inl err \<Rightarrow> Some (eff, r')
       | Inr req \<Rightarrow> handleVideoPacketRequest rd r' (eff\<lparr>delivered := delivered eff @ [req]\<rparr>))"

text \<open>
  \<^verbatim>\<open>io.ReadAtLeast\<close> and \<^verbatim>\<open>io.ReadFull\<close> of the Go standard library, which the raw handler
  calls: read into \<^verbatim>\<open>buf[n:]\<close> until \<open>m\<close> bytes are there or the reader reports an error;
  an \<^verbatim>\<open>io.EOF\<close> after some bytes becomes \<^verbatim>\<open>io.ErrUnexpectedEOF\<close>.
\<close>

partial_function (option) readAtLeastLoop ::
  "'r reader \<Rightarrow> 'r \<Rightarrow> byte list \<Rightarrow> nat \<Rightarrow> nat \<Rightarrow> error option
     \<Rightarrow> (byte list \<times> nat \<times> error option \<times> 'r) option" where
  "readAtLeastLoop rd r buf m n err =
     (if n < m \<and> err = None then
        (case Read rd r (drop n buf) of (rest, nn, err', r') \<Rightarrow>
           readAtLeastLoop rd r' (take n buf @ rest) m (n + nn) err')
      else Some (buf, n, err, r))"

definition ReadAtLeast ::
  "'r reader \<Rightarrow> 'r \<Rightarrow> byte list \<Rightarrow> nat \<Rightarrow> (byte list \<times> nat \<times> error option \<times> 'r) option" where
  "ReadAtLeast rd r buf m =
     (if length buf < m then Some (buf, 0, Some ErrShortBuffer, r)
      else Option.bind (readAtLeastLoop rd r buf m 0 None) (\<lambda>(buf', n, err, r').
        Some (buf', n,
              (if n \<ge> m then None
               else if n > 0 \<and> err = Some EOF then Some ErrUnexpectedEOF else err), r')))"

definition ReadFull ::
  "'r reader \<Rightarrow> 'r \<Rightarrow> byte list \<Rightarrow> (byte list \<times> nat \<times> error option \<times> 'r) option" where
  "ReadFull rd r buf = ReadAtLeast rd r buf (length buf)"

definition VideoPacketMaxBufferSize :: nat where
  "VideoPacketMaxBufferSize = 4096"

text \<open>
  The inner loop of \<^verbatim>\<open>handleVideoPacketRaw\<close>, lines 83-96: a fresh buffer of
  \<open>VideoPacketMaxBufferSize\<close> bytes per pass, sent whole after a full read, and sent
  whole after a failed read that obtained \<open>n > 0\<close> bytes.
\<close>

partial_function (option) streamRaw ::
  "'r reader \<Rightarrow> 'r \<Rightarrow> effects \<Rightarrow> (effects \<times> 'r) option" where
  "streamRaw rd r eff =
     Option.bind (ReadFull rd r (replicate VideoPacketMaxBufferSize 0)) (\<lambda>(buf, n, err, r').
       case err of
         Some e \<Rightarrow>
           Some (if n > 0 then eff\<lparr>senderData := senderData eff @ [buf]\<rparr> else eff, r')
       | None \<Rightarrow> streamRaw rd r' (eff\<lparr>senderData := senderData eff @ [buf]\<rparr>))"

text \<open>The outer loop of \<^verbatim>\<open>handleVideoPacketRaw\<close>, lines 72-97.\<close>

partial_function (option) rawLoop ::
  "'r reader \<Rightarrow> 'r \<Rightarrow> effects \<Rightarrow> (effects \<times> 'r) option" where
  "rawLoop rd r eff =
     Option.bind (parseVideoPacketRequest rd r) (\<lambda>(res, r1).
       case res of
         Inl err \<Rightarrow> Some (eff, r1)
       | Inr req \<Rightarrow>
           Option.bind (streamRaw rd r1 (eff\<lparr>senderData := senderData eff @ [req]\<rparr>))
             (\<lambda>(eff', r2). rawLoop rd r2 eff'))"

text \<open>
  \<^verbatim>\<open>handleVideoPacketRaw\<close>, lines 62-98. \<open>newSender\<close> is the error result of
  \<^verbatim>\<open>deliver.NewLongConnSender\<close>, a function of the \<^verbatim>\<open>deliver\<close> package.
\<close>

definition handleVideoPacketRaw ::
  "'r reader \<Rightarrow> 'r \<Rightarrow> error option \<Rightarrow> effects \<Rightarrow> (effects \<times> 'r) option" where
  "handleVideoPacketRaw rd r newSender eff =
     (let eff1 = eff\<lparr>senders := senders eff + 1\<rparr> in
      case newSender of
        Some err \<Rightarrow> Some (eff1, r)
      | None \<Rightarrow> rawLoop rd r eff1)"

text \<open>
  \<^verbatim>\<open>VideoPacketStreamFactory.New\<close>, lines 38-48. The mode type and the constant
  \<^verbatim>\<open>deliver.ModeRaw\<close> belong to the \<^verbatim>\<open>deliver\<close> package and are parameters here;
  \<open>mode\<close> is \<^verbatim>\<open>f.d.Config.Mode\<close>. The result is the new value of
  \<open>videoPacketStreamCount\<close> and the run of the handler that \<^verbatim>\<open>New\<close> starts on the stream.
\<close>

definition New ::
  "'m \<Rightarrow> 'm \<Rightarrow> error option \<Rightarrow> 64 word \<Rightarrow> 'r reader \<Rightarrow> 'r \<Rightarrow> effects
     \<Rightarrow> 64 word \<times> (effects \<times> 'r) option" where
  "New ModeRaw mode newSender videoPacketStreamCount rd s eff =
     (let n = videoPacketStreamCount + 1 in
      if mode = ModeRaw then (n, handleVideoPacketRaw rd s newSender eff)
      else (n, handleVideoPacketRequest rd s eff))"

section \<open>Frames and successive calls\<close>

text \<open>
  The data model's invariant: a frame is valid iff header, version and tail markers match
  and the payload length computed from the length field is within \<open>[0, 10 * 1024 * 1024]\<close>;
  its size is 17 plus the payload length.
\<close>

definition payloadLength :: "byte list \<Rightarrow> int" where
  "payloadLength f = uint (Uint32 (take 4 (drop 1 f))) - 17"

definition validFrame :: "byte list \<Rightarrow> bool" where
  "validFrame f \<longleftrightarrow>
     0 \<le> payloadLength f \<and> payloadLength f \<le> 10 * 1024 * 1024 \<and>
     int (length f) = 17 + payloadLength f \<and>
     f ! 0 = 0x26 \<and> f ! 5 = 1 \<and> last f = 0x28"

text \<open>
  \<open>n\<close> successive calls of \<^verbatim>\<open>parseVideoPacketRequest\<close> on one reader, as the loops of the
  handlers make them: the results in order and the reader after the last call.
\<close>

fun successiveCalls ::
  "nat \<Rightarrow> 'r reader \<Rightarrow> 'r \<Rightarrow> ((error + byte list) list \<times> 'r) option" where
  "successiveCalls 0 rd r = Some ([], r)"
| "successiveCalls (Suc n) rd r =
     Option.bind (parseVideoPacketRequest rd r) (\<lambda>(x, r').
       Option.bind (successiveCalls n rd r') (\<lambda>(xs, r''). Some (x # xs, r'')))"

text \<open>The 17-byte frame with an empty payload.\<close>

definition minimalFrame :: "byte list" where
  "minimalFrame = [0x26, 0x00, 0x00, 0x00, 0x11, 0x01] @ replicate 10 0x00 @ [0x28]"

text \<open>
  A reader that fails only with end-of-stream: whatever error a call of \<^verbatim>\<open>Read\<close> reports
  is \<^verbatim>\<open>io.EOF\<close>. (The reads may still be short.)
\<close>

definition eofOnly :: "'r reader \<Rightarrow> bool" where
  "eofOnly rd \<longleftrightarrow> (\<forall>r k bs e r'. rd r k = (bs, Some e, r') \<longrightarrow> e = EOF)"

text \<open>The unfolding equations of the loops are their code equations.\<close>

declare scanHeader.simps [code]
declare parseVideoPacketRequest.simps [code]
declare handleVideoPacketRequest.simps [code]
declare readAtLeastLoop.simps [code]
declare streamRaw.simps [code]
declare rawLoop.simps [code]

section \<open>The reader over a finite byte sequence\<close>

lemma Read_listReader_Nil: "Read listReader [] p = (p, 0, Some EOF, [])"
  by (simp add: Read_def listReader_def)

lemma Read_listReader_Cons:
  "s \<noteq> [] \<Longrightarrow> Read listReader s p =
     (take (length p) s @ drop (length s) p, min (length s) (length p), None, drop (length p) s)"
  by (simp add: Read_def listReader_def Let_def min_def)

lemma Read_listReader_exact:
  "length xs = k \<Longrightarrow> 0 < k \<Longrightarrow> Read listReader (xs @ ys) (replicate k 0) = (xs, k, None, ys)"
  by (auto simp add: Read_listReader_Cons)

lemma unat_dataLength:
  fixes w :: "32 word"
  shows "unat ((ucast w :: 64 word) - 17) = (if 17 \<le> unat w then unat w - 17 else 2 ^ 64 - 17 + unat w)"
proof -
  have lt: "unat w < 2 ^ 32" using unsigned_less [of w] by simp
  then have "unat w < 2 ^ 64" by simp
  then have u: "unat (ucast w :: 64 word) = unat w"
    by (simp add: unsigned_ucast_eq take_bit_nat_eq_self)
  show ?thesis
  proof (cases "17 \<le> unat w")
    case True
    then have "(17 :: 64 word) \<le> ucast w" by (simp add: word_le_nat_alt u)
    then show ?thesis using True by (simp add: unat_sub u)
  next
    case False
    then have "ucast w < (17 :: 64 word)" by (simp add: word_less_nat_alt u)
    then show ?thesis using False lt
      by (simp add: unat_sub_if' u)
  qed
qed

lemma readLength_listReader:
  "length l = 4 \<Longrightarrow> readLength listReader (l @ ys) = (Next (l, ucast (Uint32 l) - 17), ys)"
  by (simp add: readLength_def Read_listReader_exact)

lemma readVersion_listReader:
  "readVersion listReader (v # ys) = (if v \<noteq> 1 then (Continue, ys) else (Next [v], ys))"
  using Read_listReader_exact [of "[v]" 1 ys] by (simp add: readVersion_def)

lemma readReserved_listReader:
  "length res = 10 \<Longrightarrow> readReserved listReader (res @ ys) = (Next res, ys)"
  by (simp add: readReserved_def Read_listReader_exact)

lemma readData_zero: "readData rd r 0 = (Next [], r)"
  by (simp add: readData_def)

lemma readData_listReader:
  "unat dl = length d \<Longrightarrow> d \<noteq> [] \<Longrightarrow> length d \<le> 10 * 1024 * 1024 \<Longrightarrow>
   readData listReader (d @ ys) dl = (Next d, ys)"
proof -
  assume a: "unat dl = length d" "d \<noteq> []" "length d \<le> 10 * 1024 * 1024"
  have pos: "0 < dl" using a by (simp add: word_less_nat_alt)
  have le: "\<not> (1024 * 1024 * 10 < dl)" using a by (simp add: word_less_nat_alt)
  show ?thesis using a pos le
    by (simp add: readData_def Read_listReader_exact)
qed

lemma readTail_listReader:
  "readTail listReader (t # ys) = (if t \<noteq> 0x28 then (Continue, ys) else (Next [t], ys))"
  using Read_listReader_exact [of "[t]" 1 ys] by (simp add: readTail_def)

lemma scanHeader_listReader:
  "length p = 1 \<Longrightarrow> scanHeader listReader s p =
     (if 0x26 \<in> set s then Some (Inr [0x26], tl (dropWhile (\<lambda>b. b \<noteq> 0x26) s))
      else Some (Inl EOF, []))"
proof (induction s arbitrary: p)
  case Nil
  then show ?case by (subst scanHeader.simps) (simp add: Read_listReader_Nil)
next
  case (Cons x xs)
  have rd: "Read listReader (x # xs) p = ([x], 1, None, xs)"
    using Cons.prems by (simp add: Read_listReader_Cons)
  show ?case
    by (subst scanHeader.simps) (simp add: rd Cons.IH)
qed

lemma validFrame_decomp:
  assumes "validFrame f"
  obtains l res d where "f = 0x26 # l @ 1 # res @ d @ [0x28]" "length l = 4"
    "length res = 10" "unat (Uint32 l) = 17 + length d" "length d \<le> 10 * 1024 * 1024"
proof -
  from assms have len: "17 \<le> length f" and pl: "int (length f) = 17 + payloadLength f"
    and ub: "payloadLength f \<le> 10 * 1024 * 1024"
    and h: "f ! 0 = 0x26" and v: "f ! 5 = 1" and t: "last f = 0x28"
    by (auto simp: validFrame_def)
  define l where "l = take 4 (drop 1 f)"
  define res where "res = take 10 (drop 6 f)"
  define d where "d = butlast (drop 16 f)"
  have 1: "f = f ! 0 # drop 1 f" using len by (cases f) auto
  have 2: "drop 1 f = l @ drop 5 f"
    using append_take_drop_id [of 4 "drop 1 f"] by (simp add: l_def)
  have 3: "drop 5 f = f ! 5 # drop 6 f" using len Cons_nth_drop_Suc [of 5 f] by simp
  have 4: "drop 6 f = res @ drop 16 f"
    using append_take_drop_id [of 10 "drop 6 f"] by (simp add: res_def)
  have ne: "drop 16 f \<noteq> []" using len by simp
  have 5: "drop 16 f = d @ [last f]"
    using ne append_butlast_last_id [of "drop 16 f"] len by (simp add: d_def)
  have f: "f = 0x26 # l @ 1 # res @ d @ [0x28]"
    using 1 2 3 4 5 h v t by simp
  have ll: "length l = 4" using len by (simp add: l_def)
  have lr: "length res = 10" using len by (simp add: res_def)
  have ld: "length d = length f - 17" using len by (simp add: d_def)
  have "uint (Uint32 l) = int (length f)"
    using pl by (simp add: payloadLength_def l_def)
  then have "unat (Uint32 l) = length f"
    by (metis nat_int unat_eq_nat_uint)
  then have ul: "unat (Uint32 l) = 17 + length d" using ld len by simp
  have "int (length d) \<le> 10 * 1024 * 1024" using ld len pl ub by simp
  then have "length d \<le> 10 * 1024 * 1024" by simp
  with f ll lr ul show thesis by (rule that)
qed

lemma parseBody_listReader_frame:
  assumes "length l = 4" "length res = 10" "unat (Uint32 l) = 17 + length d"
    "length d \<le> 10 * 1024 * 1024"
  shows "parseBody listReader (l @ 1 # res @ d @ t # ys) proto =
           (if t \<noteq> 0x28 then (Continue, ys) else (Next (proto @ l @ 1 # res @ d @ [t]), ys))"
proof -
  let ?dl = "(ucast (Uint32 l) :: 64 word) - 17"
  have dl: "unat ?dl = length d" using assms(3) by (simp add: unat_dataLength)
  have rd: "readData listReader (d @ t # ys) ?dl = (Next d, t # ys)"
  proof (cases "d = []")
    case True
    then have "?dl = 0" using dl by (simp add: unat_eq_0 [symmetric] del: unat_eq_0)
    then show ?thesis using True by (simp add: readData_zero)
  next
    case False
    then show ?thesis using dl assms(4) by (rule_tac readData_listReader) simp_all
  qed
  show ?thesis
    using assms(1,2) rd
    by (simp add: parseBody_def andThen_def readLength_listReader readVersion_listReader
        readReserved_listReader readTail_listReader)
qed

lemma parse_valid:
  assumes "validFrame f"
  shows "parseVideoPacketRequest listReader (f @ rest) = Some (Inr f, rest)"
proof -
  from assms obtain l res d where f: "f = 0x26 # l @ 1 # res @ d @ [0x28]"
    and a: "length l = 4" "length res = 10" "unat (Uint32 l) = 17 + length d"
      "length d \<le> 10 * 1024 * 1024"
    by (rule validFrame_decomp)
  show ?thesis
    apply (subst parseVideoPacketRequest.simps)
    apply (simp add: f scanHeader_listReader)
    using parseBody_listReader_frame [OF a, of "0x28" rest "[0x26]"]
    apply simp
    done
qed

lemma validFrame_minimalFrame: "validFrame minimalFrame"
  by (simp add: validFrame_def payloadLength_def Uint32_def minimalFrame_def)

lemma parse_listReader_Nil: "parseVideoPacketRequest listReader [] = Some (Inl EOF, [])"
  by (subst parseVideoPacketRequest.simps) (simp add: scanHeader_listReader)

lemma successiveCalls_Suc_Some:
  "parseVideoPacketRequest rd r = Some (x, r') \<Longrightarrow> successiveCalls n rd r' = Some (xs, r'') \<Longrightarrow>
   successiveCalls (Suc n) rd r = Some (x # xs, r'')"
  by simp

lemma parse_listReader_header:
  "parseVideoPacketRequest listReader (0x26 # s) =
     (case parseBody listReader s [0x26] of
        (Next reqData, r') \<Rightarrow> Some (Inr reqData, r')
      | (Continue, r') \<Rightarrow> parseVideoPacketRequest listReader r'
      | (Fail e, r') \<Rightarrow> Some (Inl e, r'))"
  by (subst parseVideoPacketRequest.simps) (simp add: scanHeader_listReader)

lemma parse_listReader_skip:
  "x \<noteq> 0x26 \<Longrightarrow> parseVideoPacketRequest listReader (x # s) = parseVideoPacketRequest listReader s"
  by (subst (1 2) parseVideoPacketRequest.simps) (simp add: scanHeader_listReader)

lemma Read_listReader_length:
  "Read listReader s p = (b, n, e, s') \<Longrightarrow> length s' \<le> length s"
  by (cases "s = []") (auto simp: Read_listReader_Nil Read_listReader_Cons)

lemma andThen_length:
  assumes "andThen m f = (out, s')"
    and "\<And>x r out' r'. f x r = (out', r') \<Longrightarrow> length r' \<le> length r"
  shows "length s' \<le> length (snd m)"
  using assms by (auto simp: andThen_def split: prod.splits step.splits)

lemma readLength_listReader_length:
  "readLength listReader s = (out, s') \<Longrightarrow> length s' \<le> length s"
  by (auto simp: readLength_def Let_def split: prod.splits option.splits if_splits
      dest: Read_listReader_length)

lemma readVersion_listReader_length:
  "readVersion listReader s = (out, s') \<Longrightarrow> length s' \<le> length s"
  by (auto simp: readVersion_def split: prod.splits option.splits if_splits
      dest: Read_listReader_length)

lemma readReserved_listReader_length:
  "readReserved listReader s = (out, s') \<Longrightarrow> length s' \<le> length s"
  by (auto simp: readReserved_def split: prod.splits option.splits if_splits
      dest: Read_listReader_length)

lemma readData_listReader_length:
  "readData listReader s dl = (out, s') \<Longrightarrow> length s' \<le> length s"
  by (auto simp: readData_def split: prod.splits option.splits if_splits
      dest: Read_listReader_length)

lemma readTail_listReader_length:
  "readTail listReader s = (out, s') \<Longrightarrow> length s' \<le> length s"
  by (auto simp: readTail_def split: prod.splits option.splits if_splits
      dest: Read_listReader_length)

lemma andThen_cases [consumes 1, case_names Next Stop]:
  assumes "andThen m f = (out, s')"
  obtains (Next) x r where "m = (Next x, r)" "f x r = (out, s')"
  | (Stop) "fst m = Continue \<or> (\<exists>e. fst m = Fail e)" "snd m = s'"
  using assms by (auto simp: andThen_def split: prod.splits step.splits)

lemma parseBody_listReader_length:
  assumes "parseBody listReader s proto = (out, s')"
  shows "length s' \<le> length s"
proof -
  note b = assms [unfolded parseBody_def]
  from b show ?thesis
  proof (cases rule: andThen_cases)
    case (Next x1 r1)
    obtain lengthb dataLength where x1: "x1 = (lengthb, dataLength)" by (cases x1)
    have l1: "length r1 \<le> length s" using Next(1) by (rule readLength_listReader_length)
    from Next(2) [unfolded x1 prod.case] show ?thesis
    proof (cases rule: andThen_cases)
      case (Next x2 r2)
      have l2: "length r2 \<le> length r1" using Next(1) by (rule readVersion_listReader_length)
      from Next(2) show ?thesis
      proof (cases rule: andThen_cases)
        case (Next x3 r3)
        have l3: "length r3 \<le> length r2" using Next(1) by (rule readReserved_listReader_length)
        from Next(2) show ?thesis
        proof (cases rule: andThen_cases)
          case (Next x4 r4)
          have l4: "length r4 \<le> length r3" using Next(1) by (rule readData_listReader_length)
          from Next(2) show ?thesis
          proof (cases rule: andThen_cases)
            case (Next x5 r5)
            have l5: "length r5 \<le> length r4" using Next(1) by (rule readTail_listReader_length)
            from Next(2) have "s' = r5" by simp
            with l1 l2 l3 l4 l5 show ?thesis by simp
          next
            case Stop
            from Stop(2) have "length s' \<le> length r4" by (metis prod.collapse readTail_listReader_length)
            with l1 l2 l3 l4 show ?thesis by simp
          qed
        next
          case Stop
          from Stop(2) have "length s' \<le> length r3" by (metis prod.collapse readData_listReader_length)
          with l1 l2 l3 show ?thesis by simp
        qed
      next
        case Stop
        from Stop(2) have "length s' \<le> length r2" by (metis prod.collapse readReserved_listReader_length)
        with l1 l2 show ?thesis by simp
      qed
    next
      case Stop
      from Stop(2) have "length s' \<le> length r1" by (metis prod.collapse readVersion_listReader_length)
      with l1 show ?thesis by simp
    qed
  next
    case Stop
    from Stop(2) show ?thesis by (metis prod.collapse readLength_listReader_length)
  qed
qed

lemma parse_listReader_total:
  "\<exists>x s'. parseVideoPacketRequest listReader s = Some (x, s') \<and> length s' \<le> length s
      \<and> (x = Inl EOF \<or> length s' < length s)"
proof (induction s rule: length_induct)
  case (1 s)
  show ?case
  proof (cases s)
    case Nil
    then show ?thesis by (simp add: parse_listReader_Nil)
  next
    case (Cons b t)
    show ?thesis
    proof (cases "b = 0x26")
      case False
      have "length t < length s" using Cons by simp
      with 1 obtain x s' where "parseVideoPacketRequest listReader t = Some (x, s')"
        "length s' \<le> length t" by blast
      then show ?thesis using Cons False by (simp add: parse_listReader_skip)
    next
      case True
      obtain out r where pb: "parseBody listReader t [0x26] = (out, r)"
        by (cases "parseBody listReader t [0x26]")
      then have le: "length r \<le> length t" by (rule parseBody_listReader_length)
      show ?thesis
      proof (cases out)
        case (Next f)
        then show ?thesis using Cons True pb le by (simp add: parse_listReader_header)
      next
        case Continue
        have "length r < length s" using le Cons by simp
        with 1 obtain x s' where "parseVideoPacketRequest listReader r = Some (x, s')"
          "length s' \<le> length r" by blast
        then show ?thesis using Cons True pb le Continue by (simp add: parse_listReader_header)
      next
        case (Fail e)
        then show ?thesis using Cons True pb le by (simp add: parse_listReader_header)
      qed
    qed
  qed
qed

lemma parseBody_Next:
  assumes "parseBody rd r proto = (Next f, r')"
  obtains lengthb dl r2 version r3 reserved r4 data r5 tail where
    "readLength rd r = (Next (lengthb, dl), r2)" "readVersion rd r2 = (Next version, r3)"
    "readReserved rd r3 = (Next reserved, r4)" "readData rd r4 dl = (Next data, r5)"
    "readTail rd r5 = (Next tail, r')" "f = proto @ lengthb @ version @ reserved @ data @ tail"
  using assms
  by (auto simp: parseBody_def andThen_def split: prod.splits step.splits)

lemma scanHeader_listReader_progress:
  "\<exists>h s1. scanHeader listReader s (replicate 1 0) = Some (h, s1) \<and>
      (h = Inl EOF \<or> length s1 < length s)"
proof (cases "0x26 \<in> set s")
  case True
  then have ne: "dropWhile (\<lambda>b. b \<noteq> 0x26) s \<noteq> []" by (simp add: dropWhile_eq_Nil_conv)
  have "length (dropWhile (\<lambda>b. b \<noteq> 0x26) s) \<le> length s" by (rule length_dropWhile_le)
  with ne have "length (tl (dropWhile (\<lambda>b. b \<noteq> 0x26) s)) < length s"
    by (cases "dropWhile (\<lambda>b. b \<noteq> 0x26) s") auto
  with True show ?thesis by (simp add: scanHeader_listReader)
next
  case False
  then show ?thesis by (simp add: scanHeader_listReader)
qed

lemma eofOnly_listReader: "eofOnly listReader"
  by (simp add: eofOnly_def listReader_def)

lemma Read_length: "Read rd r p = (b, n, e, r') \<Longrightarrow> length b = length p"
  by (auto simp: Read_def Let_def split: prod.splits)

lemma Read_eofOnly: "eofOnly rd \<Longrightarrow> Read rd r p = (b, n, Some e, r') \<Longrightarrow> e = EOF"
  unfolding eofOnly_def Read_def Let_def
  by (cases "rd r (length p)") (simp, blast)

lemma scanHeader_Inr_aux:
  "scanHeader rd r p = Some y \<Longrightarrow>
     \<forall>proto r'. y = (Inr proto, r') \<longrightarrow> length proto = length p \<and> proto ! 0 = 0x26"
proof (induction rd r p y rule: scanHeader.raw_induct [rotated 1, consumes 1, case_names step])
  case (step sh rd r proto y)
  obtain b n e r1 where rd: "Read rd r proto = (b, n, e, r1)"
    by (cases "Read rd r proto") auto
  then have lb: "length b = length proto" by (rule Read_length)
  from step(2) rd have eq:
    "(case e of Some e \<Rightarrow> if e = EOF then Some (Inl e, r1) else sh rd r1 b
      | None \<Rightarrow> if b ! 0 = 0x26 then Some (Inr b, r1) else sh rd r1 b) = Some y"
    by simp
  show ?case
  proof (cases "sh rd r1 b = Some y")
    case True
    from step(1) [OF True] show ?thesis unfolding lb .
  next
    case False
    with eq have "y = (Inl EOF, r1) \<or> (y = (Inr b, r1) \<and> b ! 0 = 0x26)"
      by (auto split: option.splits if_splits)
    with lb show ?thesis by auto
  qed
qed

lemma scanHeader_Inr:
  "scanHeader rd r p = Some (Inr proto, r') \<Longrightarrow> length proto = length p \<and> proto ! 0 = 0x26"
  using scanHeader_Inr_aux [of rd r p "(Inr proto, r')"] by simp

lemma scanHeader_Inl_aux:
  "scanHeader rd r p = Some y \<Longrightarrow>
     \<forall>e r'. y = (Inl e, r') \<longrightarrow> e = EOF \<and> (\<exists>r0 p0 b n. Read rd r0 p0 = (b, n, Some EOF, r'))"
proof (induction rd r p y rule: scanHeader.raw_induct [rotated 1, consumes 1, case_names step])
  case (step sh rd r proto y)
  obtain b n e r1 where rd: "Read rd r proto = (b, n, e, r1)"
    by (cases "Read rd r proto") auto
  from step(2) rd have eq:
    "(case e of Some e \<Rightarrow> if e = EOF then Some (Inl e, r1) else sh rd r1 b
      | None \<Rightarrow> if b ! 0 = 0x26 then Some (Inr b, r1) else sh rd r1 b) = Some y"
    by simp
  show ?case
  proof (cases "sh rd r1 b = Some y")
    case True
    from step(1) [OF True] show ?thesis .
  next
    case False
    with eq have d: "(y = (Inl EOF, r1) \<and> e = Some EOF) \<or> (y = (Inr b, r1) \<and> b ! 0 = 0x26)"
      by (auto split: option.splits if_splits)
    show ?thesis
    proof (intro allI impI)
      fix e' r'
      assume "y = (Inl e', r')"
      with d have "e' = EOF" "r' = r1" "e = Some EOF" by auto
      with rd show "e' = EOF \<and> (\<exists>r0 p0 b n. Read rd r0 p0 = (b, n, Some EOF, r'))"
        by blast
    qed
  qed
qed

lemma scanHeader_Inl:
  "scanHeader rd r p = Some (Inl e, r') \<Longrightarrow>
     e = EOF \<and> (\<exists>r0 p0 b n. Read rd r0 p0 = (b, n, Some EOF, r'))"
  using scanHeader_Inl_aux [of rd r p "(Inl e, r')"] by simp

lemma readLength_Next:
  "readLength rd r = (Next (l, dl), r') \<Longrightarrow>
     length l = 4 \<and> (eofOnly rd \<longrightarrow> dl = ucast (Uint32 l) - 17)"
  by (auto simp: readLength_def Let_def split: prod.splits option.splits if_splits
      dest: Read_length Read_eofOnly)

lemma readVersion_Next:
  "readVersion rd r = (Next v, r') \<Longrightarrow> length v = 1 \<and> (eofOnly rd \<longrightarrow> v ! 0 = 1)"
  by (auto simp: readVersion_def split: prod.splits option.splits if_splits
      dest: Read_length Read_eofOnly)

lemma readReserved_Next:
  "readReserved rd r = (Next res, r') \<Longrightarrow> length res = 10"
  by (auto simp: readReserved_def split: prod.splits option.splits if_splits
      dest: Read_length)

lemma readTail_Next:
  "readTail rd r = (Next t, r') \<Longrightarrow> length t = 1 \<and> (eofOnly rd \<longrightarrow> t ! 0 = 0x28)"
  by (auto simp: readTail_def split: prod.splits option.splits if_splits
      dest: Read_length Read_eofOnly)

lemma readData_Next:
  "readData rd r dl = (Next d, r') \<Longrightarrow> length d = unat dl \<and> dl \<le> 1024 * 1024 * 10"
  by (auto simp: readData_def word_gt_0 word_le_nat_alt word_less_nat_alt split: prod.splits option.splits if_splits
      dest: Read_length)

lemma validFrame_assembled:
  fixes l :: "byte list" and dl :: "64 word"
  assumes "length proto = 1" "proto ! 0 = 0x26" "length l = 4" "dl = ucast (Uint32 l) - 17"
    "length v = 1" "v ! 0 = 1" "length res = 10" "length d = unat dl" "dl \<le> 1024 * 1024 * 10"
    "length t = 1" "t ! 0 = 0x28"
  shows "validFrame (proto @ l @ v @ res @ d @ t)"
proof -
  have ub: "unat dl \<le> 10485760" using assms(9) by (simp add: word_le_nat_alt)
  have lt: "unat (Uint32 l) < 2 ^ 32" using unsigned_less [of "Uint32 l"] by simp
  have ge: "17 \<le> unat (Uint32 l)"
  proof (rule ccontr)
    assume "\<not> 17 \<le> unat (Uint32 l)"
    then have "unat dl = 2 ^ 64 - 17 + unat (Uint32 l)"
      by (simp add: assms(4) unat_dataLength)
    with ub show False by simp
  qed
  then have dl: "unat dl = unat (Uint32 l) - 17" by (simp add: assms(4) unat_dataLength)
  obtain a where p: "proto = [a]" using assms(1) by (cases proto) auto
  obtain b where v: "v = [b]" using assms(5) by (cases v) auto
  obtain c where t: "t = [c]" using assms(10) by (cases t) auto
  have a: "a = 0x26" using assms(2) by (simp add: p)
  have b: "b = 1" using assms(6) by (simp add: v)
  have c: "c = 0x28" using assms(11) by (simp add: t)
  let ?f = "proto @ l @ v @ res @ d @ t"
  have tk: "take 4 (drop 1 ?f) = l"
    using assms(3) by (simp add: p)
  have "uint (Uint32 l) = int (unat (Uint32 l))" by simp
  also have "\<dots> = int (17 + length d)" using ge dl assms(8) by simp
  finally have pl: "payloadLength ?f = int (length d)"
    by (simp only: payloadLength_def tk)
  have n0: "?f ! 0 = 0x26" by (simp add: p a)
  have n5: "?f ! 5 = 1" using assms(3) by (simp add: p v b nth_append)
  have la: "last ?f = 0x28" by (simp add: t c)
  have len: "int (length ?f) = 17 + int (length d)"
    using assms(3,7) by (simp add: p v t)
  have "length d \<le> 10485760" using ub assms(8) by simp
  then have bd: "int (length d) \<le> 10 * 1024 * 1024" by simp
  show ?thesis
    unfolding validFrame_def pl using n0 n5 la len bd by simp
qed

lemma parse_frame_aux:
  "parseVideoPacketRequest rd r = Some y \<Longrightarrow>
     eofOnly rd \<longrightarrow> (\<forall>f r'. y = (Inr f, r') \<longrightarrow> validFrame f)"
proof (induction rd r y rule: parseVideoPacketRequest.raw_induct [rotated 1, consumes 1, case_names step])
  case (step parse rd r y)
  show ?case
  proof (intro impI allI)
    fix f r'
    assume eo: "eofOnly rd" and y: "y = (Inr f, r')"
    from step(2) obtain h r1 where sh: "scanHeader rd r (replicate 1 0) = Some (h, r1)"
      and rest: "(case h of Inl e \<Rightarrow> Some (Inl e, r1)
                  | Inr proto \<Rightarrow>
                     (case parseBody rd r1 proto of
                        (Next reqData, r') \<Rightarrow> Some (Inr reqData, r')
                      | (Continue, r') \<Rightarrow> parse rd r'
                      | (Fail e, r') \<Rightarrow> Some (Inl e, r'))) = Some y"
      by (auto simp: bind_eq_Some_conv)
    from rest y obtain proto where h: "h = Inr proto" by (cases h) auto
    from sh h have pr: "length proto = 1" "proto ! 0 = 0x26"
      using scanHeader_Inr [of rd r "replicate 1 0" proto r1] by simp_all
    obtain out r2 where pb: "parseBody rd r1 proto = (out, r2)"
      by (cases "parseBody rd r1 proto")
    show "validFrame f"
    proof (cases out)
      case (Next g)
      with rest h pb y have g: "g = f" "r2 = r'" by simp_all
      from pb Next g obtain lengthb dl q2 version q3 reserved q4 data q5 tail where
        st: "readLength rd r1 = (Next (lengthb, dl), q2)" "readVersion rd q2 = (Next version, q3)"
        "readReserved rd q3 = (Next reserved, q4)" "readData rd q4 dl = (Next data, q5)"
        "readTail rd q5 = (Next tail, r')" "f = proto @ lengthb @ version @ reserved @ data @ tail"
        by (auto elim: parseBody_Next)
      have l4: "length lengthb = 4" and dle: "dl = ucast (Uint32 lengthb) - 17"
        using readLength_Next [OF st(1)] eo by simp_all
      have v1: "length version = 1" and v2: "version ! 0 = 1"
        using readVersion_Next [OF st(2)] eo by simp_all
      have r10: "length reserved = 10" using readReserved_Next [OF st(3)] .
      have d1: "length data = unat dl" and d2: "dl \<le> 1024 * 1024 * 10"
        using readData_Next [OF st(4)] by simp_all
      have t1: "length tail = 1" and t2: "tail ! 0 = 0x28"
        using readTail_Next [OF st(5)] eo by simp_all
      show ?thesis
        unfolding st(6)
        by (rule validFrame_assembled [OF pr l4 dle v1 v2 r10 d1 d2 t1 t2])
    next
      case Continue
      with rest h pb have "parse rd r2 = Some y" by simp
      from step(1) [OF this] eo y show ?thesis by simp
    next
      case (Fail e)
      with rest h pb y show ?thesis by simp
    qed
  qed
qed

lemma parse_minimalFrame:
  "parseVideoPacketRequest listReader minimalFrame = Some (Inr minimalFrame, [])"
  using parse_valid [OF validFrame_minimalFrame, of "[]"] by simp

lemma readLength_Fail: "readLength rd r = (Fail e, r') \<Longrightarrow> e = EOF"
  by (auto simp: readLength_def Let_def split: prod.splits option.splits if_splits)

lemma readVersion_Fail: "readVersion rd r = (Fail e, r') \<Longrightarrow> e = EOF"
  by (auto simp: readVersion_def split: prod.splits option.splits if_splits)

lemma readReserved_Fail: "readReserved rd r = (Fail e, r') \<Longrightarrow> e = EOF"
  by (auto simp: readReserved_def split: prod.splits option.splits if_splits)

lemma readData_Fail: "readData rd r dl = (Fail e, r') \<Longrightarrow> e = EOF"
  by (auto simp: readData_def split: prod.splits option.splits if_splits)

lemma readTail_Fail: "readTail rd r = (Fail e, r') \<Longrightarrow> e = EOF"
  by (auto simp: readTail_def split: prod.splits option.splits if_splits)

lemma andThen_Fail:
  assumes "andThen m f = (Fail e, r')"
    and "m = (Fail e, r') \<Longrightarrow> P"
    and "\<And>x r. f x r = (Fail e, r') \<Longrightarrow> P"
  shows P
  using assms by (auto simp: andThen_def split: prod.splits step.splits)

lemma parseBody_Fail: "parseBody rd r proto = (Fail e, r') \<Longrightarrow> e = EOF"
  unfolding parseBody_def
  apply (erule andThen_Fail)
   apply (erule readLength_Fail)
  apply (simp only: split_def)
  apply (erule andThen_Fail)
   apply (erule readVersion_Fail)
  apply (erule andThen_Fail)
   apply (erule readReserved_Fail)
  apply (erule andThen_Fail)
   apply (erule readData_Fail)
  apply (erule andThen_Fail)
   apply (erule readTail_Fail)
  apply simp
  done

lemma parse_unfold_Inl:
  "scanHeader rd r0 (replicate 1 0) = Some (Inl e, r') \<Longrightarrow>
   parseVideoPacketRequest rd r0 = Some (Inl e, r')"
  by (subst parseVideoPacketRequest.simps) simp

lemma parse_unfold_Next:
  "scanHeader rd r0 (replicate 1 0) = Some (Inr proto, r) \<Longrightarrow>
   parseBody rd r proto = (Next f, r') \<Longrightarrow>
   parseVideoPacketRequest rd r0 = Some (Inr f, r')"
  by (subst parseVideoPacketRequest.simps) simp

lemma parse_unfold_Continue:
  "scanHeader rd r0 (replicate 1 0) = Some (Inr proto, r) \<Longrightarrow>
   parseBody rd r proto = (Continue, r') \<Longrightarrow>
   parseVideoPacketRequest rd r0 = parseVideoPacketRequest rd r'"
  by (subst parseVideoPacketRequest.simps) simp

lemma parse_unfold_Fail:
  "scanHeader rd r0 (replicate 1 0) = Some (Inr proto, r) \<Longrightarrow>
   parseBody rd r proto = (Fail e, r') \<Longrightarrow>
   parseVideoPacketRequest rd r0 = Some (Inl e, r')"
  by (subst parseVideoPacketRequest.simps) simp

lemma dataLength_too_long:
  fixes w :: "32 word"
  assumes "unat w < 17 \<or> 17 + 10 * 1024 * 1024 < unat w"
  shows "(1024 * 1024 * 10 :: 64 word) < ucast w - 17"
proof -
  have lt: "unat w < 2 ^ 32" using unsigned_less [of w] by simp
  have "10485760 < unat ((ucast w :: 64 word) - 17)"
    using assms lt by (auto simp: unat_dataLength)
  then show ?thesis by (simp add: word_less_nat_alt)
qed

lemma readData_too_long:
  "(1024 * 1024 * 10 :: 64 word) < dl \<Longrightarrow> readData rd r dl = (Continue, r)"
proof -
  assume a: "(1024 * 1024 * 10 :: 64 word) < dl"
  then have "0 < dl" by (simp add: word_less_nat_alt)
  with a show ?thesis by (simp add: readData_def)
qed

lemma parseBody_bad_length:
  assumes "Read rd r (replicate 4 0) = (lengthb, n, None, r2)"
    and "unat (Uint32 lengthb) < 17 \<or> 17 + 10 * 1024 * 1024 < unat (Uint32 lengthb)"
  shows "parseBody rd r proto \<noteq> (Next f, r')"
proof
  assume "parseBody rd r proto = (Next f, r')"
  then obtain lb dl q2 version q3 reserved q4 data q5 tail where
    st: "readLength rd r = (Next (lb, dl), q2)" "readData rd q4 dl = (Next data, q5)"
    by (auto elim: parseBody_Next)
  from st(1) assms(1) have "dl = ucast (Uint32 lengthb) - 17"
    by (auto simp: readLength_def)
  moreover have "(1024 * 1024 * 10 :: 64 word) < ucast (Uint32 lengthb) - 17"
    by (rule dataLength_too_long [OF assms(2)])
  ultimately have "(1024 * 1024 * 10 :: 64 word) < dl" by simp
  then have "readData rd q4 dl = (Continue, q4)" by (rule readData_too_long)
  with st(2) show False by simp
qed

lemma readLength_Fail_read:
  "readLength rd r = (Fail e, r') \<Longrightarrow> \<exists>p b n. Read rd r p = (b, n, Some EOF, r')"
  by (auto simp: readLength_def Let_def split: prod.splits option.splits if_splits)

lemma readVersion_Fail_read:
  "readVersion rd r = (Fail e, r') \<Longrightarrow> \<exists>p b n. Read rd r p = (b, n, Some EOF, r')"
  by (auto simp: readVersion_def split: prod.splits option.splits if_splits)

lemma readReserved_Fail_read:
  "readReserved rd r = (Fail e, r') \<Longrightarrow> \<exists>p b n. Read rd r p = (b, n, Some EOF, r')"
  by (auto simp: readReserved_def split: prod.splits option.splits if_splits)

lemma readData_Fail_read:
  "readData rd r dl = (Fail e, r') \<Longrightarrow> \<exists>p b n. Read rd r p = (b, n, Some EOF, r')"
  by (auto simp: readData_def split: prod.splits option.splits if_splits)

lemma readTail_Fail_read:
  "readTail rd r = (Fail e, r') \<Longrightarrow> \<exists>p b n. Read rd r p = (b, n, Some EOF, r')"
  by (auto simp: readTail_def split: prod.splits option.splits if_splits)

lemma parseBody_Fail_read:
  "parseBody rd r proto = (Fail e, r') \<Longrightarrow> \<exists>r1 p b n. Read rd r1 p = (b, n, Some EOF, r')"
  unfolding parseBody_def
  apply (erule andThen_Fail)
   apply (blast dest: readLength_Fail_read)
  apply (simp only: split_def)
  apply (erule andThen_Fail)
   apply (blast dest: readVersion_Fail_read)
  apply (erule andThen_Fail)
   apply (blast dest: readReserved_Fail_read)
  apply (erule andThen_Fail)
   apply (blast dest: readData_Fail_read)
  apply (erule andThen_Fail)
   apply (blast dest: readTail_Fail_read)
  apply simp
  done

lemma parse_Inl_aux:
  "parseVideoPacketRequest rd r = Some y \<Longrightarrow>
     \<forall>e r'. y = (Inl e, r') \<longrightarrow> e = EOF \<and> (\<exists>r1 p b n. Read rd r1 p = (b, n, Some EOF, r'))"
proof (induction rd r y rule: parseVideoPacketRequest.raw_induct [rotated 1, consumes 1, case_names step])
  case (step parse rd r y)
  show ?case
  proof (intro impI allI)
    fix e r'
    assume y: "y = (Inl e, r')"
    from step(2) obtain h r1 where sh: "scanHeader rd r (replicate 1 0) = Some (h, r1)"
      and rest: "(case h of Inl e \<Rightarrow> Some (Inl e, r1)
                  | Inr proto \<Rightarrow>
                     (case parseBody rd r1 proto of
                        (Next reqData, r') \<Rightarrow> Some (Inr reqData, r')
                      | (Continue, r') \<Rightarrow> parse rd r'
                      | (Fail e, r') \<Rightarrow> Some (Inl e, r'))) = Some y"
      by (auto simp: bind_eq_Some_conv)
    show "e = EOF \<and> (\<exists>r1 p b n. Read rd r1 p = (b, n, Some EOF, r'))"
    proof (cases h)
      case (Inl e0)
      with rest y have "e0 = e" "r1 = r'" by simp_all
      with sh Inl show ?thesis using scanHeader_Inl [of rd r "replicate 1 0" e r'] by simp
    next
      case (Inr proto)
      obtain out r2 where pb: "parseBody rd r1 proto = (out, r2)"
        by (cases "parseBody rd r1 proto")
      show ?thesis
      proof (cases out)
        case (Next g)
        with rest Inr pb y show ?thesis by simp
      next
        case Continue
        with rest Inr pb have "parse rd r2 = Some y" by simp
        from step(1) [OF this] y show ?thesis by simp
      next
        case (Fail e0)
        with rest Inr pb y have "e0 = e" "r2 = r'" by simp_all
        with pb Fail show ?thesis
          using parseBody_Fail [of rd r1 proto e r'] parseBody_Fail_read [of rd r1 proto e r']
          by simp
      qed
    qed
  qed
qed

lemma parse_Inl:
  "parseVideoPacketRequest rd r = Some (Inl e, r') \<Longrightarrow>
     e = EOF \<and> (\<exists>r1 p b n. Read rd r1 p = (b, n, Some EOF, r'))"
  using parse_Inl_aux [of rd r "(Inl e, r')"] by simp

lemma scanHeader_EOF:
  "Read rd r p = (b, n, Some EOF, r') \<Longrightarrow> scanHeader rd r p = Some (Inl EOF, r')"
  by (subst scanHeader.simps) simp

lemma scanHeader_wrong_byte:
  "Read rd r p = (b, n, None, r') \<Longrightarrow> b ! 0 \<noteq> 0x26 \<Longrightarrow> scanHeader rd r p = scanHeader rd r' b"
  by (subst scanHeader.simps) simp

lemma scanHeader_other_error:
  "Read rd r p = (b, n, Some e, r') \<Longrightarrow> e \<noteq> EOF \<Longrightarrow> scanHeader rd r p = scanHeader rd r' b"
  by (subst scanHeader.simps) simp

lemma parseBody_length_EOF:
  "Read rd r (replicate 4 0) = (b, n, Some EOF, r') \<Longrightarrow> parseBody rd r proto = (Fail EOF, r')"
  by (simp add: parseBody_def andThen_def readLength_def)

lemma parseBody_version_EOF:
  "readLength rd r = (Next (l, dl), r2) \<Longrightarrow> Read rd r2 (replicate 1 0) = (b, n, Some EOF, r') \<Longrightarrow>
   parseBody rd r proto = (Fail EOF, r')"
  by (simp add: parseBody_def andThen_def readVersion_def)

lemma parseBody_version_wrong:
  "readLength rd r = (Next (l, dl), r2) \<Longrightarrow> Read rd r2 (replicate 1 0) = (v, n, None, r') \<Longrightarrow>
   v ! 0 \<noteq> 1 \<Longrightarrow> parseBody rd r proto = (Continue, r')"
  by (simp add: parseBody_def andThen_def readVersion_def)

lemma parseBody_reserved_EOF:
  "readLength rd r = (Next (l, dl), r2) \<Longrightarrow> readVersion rd r2 = (Next v, r3) \<Longrightarrow>
   Read rd r3 (replicate 10 0) = (b, n, Some EOF, r') \<Longrightarrow>
   parseBody rd r proto = (Fail EOF, r')"
  by (simp add: parseBody_def andThen_def readReserved_def)

lemma parseBody_too_long:
  "readLength rd r = (Next (l, dl), r2) \<Longrightarrow> readVersion rd r2 = (Next v, r3) \<Longrightarrow>
   readReserved rd r3 = (Next res, r4) \<Longrightarrow> 1024 * 1024 * 10 < dl \<Longrightarrow>
   parseBody rd r proto = (Continue, r4)"
  by (simp add: parseBody_def andThen_def readData_too_long)

lemma parseBody_data_EOF:
  "readLength rd r = (Next (l, dl), r2) \<Longrightarrow> readVersion rd r2 = (Next v, r3) \<Longrightarrow>
   readReserved rd r3 = (Next res, r4) \<Longrightarrow> 0 < dl \<Longrightarrow> dl \<le> 1024 * 1024 * 10 \<Longrightarrow>
   Read rd r4 (replicate (unat dl) 0) = (b, n, Some EOF, r') \<Longrightarrow>
   parseBody rd r proto = (Fail EOF, r')"
  by (simp add: parseBody_def andThen_def readData_def not_less [symmetric])

lemma parseBody_tail_EOF:
  "readLength rd r = (Next (l, dl), r2) \<Longrightarrow> readVersion rd r2 = (Next v, r3) \<Longrightarrow>
   readReserved rd r3 = (Next res, r4) \<Longrightarrow> readData rd r4 dl = (Next d, r5) \<Longrightarrow>
   Read rd r5 (replicate 1 0) = (b, n, Some EOF, r') \<Longrightarrow>
   parseBody rd r proto = (Fail EOF, r')"
  by (simp add: parseBody_def andThen_def readTail_def)

lemma parseBody_tail_wrong:
  "readLength rd r = (Next (l, dl), r2) \<Longrightarrow> readVersion rd r2 = (Next v, r3) \<Longrightarrow>
   readReserved rd r3 = (Next res, r4) \<Longrightarrow> readData rd r4 dl = (Next d, r5) \<Longrightarrow>
   Read rd r5 (replicate 1 0) = (t, n, None, r') \<Longrightarrow> t ! 0 \<noteq> 0x28 \<Longrightarrow>
   parseBody rd r proto = (Continue, r')"
  by (simp add: parseBody_def andThen_def readTail_def)

lemma readLength_bad_length:
  assumes "Read rd r (replicate 4 0) = (l, n, None, r2)"
    and "unat (Uint32 l) < 17 \<or> 17 + 10 * 1024 * 1024 < unat (Uint32 l)"
  shows "readLength rd r = (Next (l, ucast (Uint32 l) - 17), r2) \<and>
         (1024 * 1024 * 10 :: 64 word) < ucast (Uint32 l) - 17"
  using assms(1) dataLength_too_long [OF assms(2)] by (simp add: readLength_def)

lemma parse_listReader_junk:
  "0x26 \<notin> set junk \<Longrightarrow>
   parseVideoPacketRequest listReader (junk @ t) = parseVideoPacketRequest listReader t"
  by (induction junk) (simp_all add: parse_listReader_skip)

lemma readAtLeastLoop_exit:
  "\<not> (n < m \<and> err = None) \<Longrightarrow> readAtLeastLoop rd r buf m n err = Some (buf, n, err, r)"
  by (subst readAtLeastLoop.simps) (simp only: if_False)

lemma readAtLeastLoop_step:
  "n < m \<Longrightarrow> readAtLeastLoop rd r buf m n None =
     (case Read rd r (drop n buf) of (rest, nn, err', r') \<Rightarrow>
        readAtLeastLoop rd r' (take n buf @ rest) m (n + nn) err')"
  by (subst readAtLeastLoop.simps) simp

lemma ReadFull_listReader_full:
  assumes "0 < k" "k \<le> length s"
  shows "ReadFull listReader s (replicate k 0) = Some (take k s, k, None, drop k s)"
proof -
  have ne: "s \<noteq> []" using assms by auto
  have rd: "Read listReader s (replicate k 0) = (take k s, k, None, drop k s)"
    using assms ne by (simp add: Read_listReader_Cons min_def)
  have "readAtLeastLoop listReader s (replicate k 0) k 0 None = Some (take k s, k, None, drop k s)"
    using assms(1) by (simp add: readAtLeastLoop_step rd readAtLeastLoop_exit)
  then show ?thesis by (simp add: ReadFull_def ReadAtLeast_def)
qed

lemma ReadFull_listReader_Nil:
  assumes "0 < k"
  shows "ReadFull listReader [] (replicate k 0) = Some (replicate k 0, 0, Some EOF, [])"
proof -
  have "readAtLeastLoop listReader [] (replicate k 0) k 0 None
      = Some (replicate k 0, 0, Some EOF, [])"
    using assms by (simp add: readAtLeastLoop_step Read_listReader_Nil readAtLeastLoop_exit)
  then show ?thesis using assms by (simp add: ReadFull_def ReadAtLeast_def)
qed

lemma ReadFull_listReader_short:
  assumes "s \<noteq> []" "length s < k"
  shows "ReadFull listReader s (replicate k 0)
      = Some (s @ replicate (k - length s) 0, length s, Some ErrUnexpectedEOF, [])"
proof -
  let ?b = "s @ replicate (k - length s) 0"
  have rd1: "Read listReader s (replicate k 0) = (?b, length s, None, [])"
    using assms by (simp add: Read_listReader_Cons min_def)
  have rd2: "Read listReader [] (drop (length s) ?b) = (replicate (k - length s) 0, 0, Some EOF, [])"
    by (simp add: Read_listReader_Nil)
  have pos: "0 < k" "0 < length s" using assms by auto
  have s1: "readAtLeastLoop listReader s (replicate k 0) k 0 None
      = readAtLeastLoop listReader [] ?b k (length s) None"
    using pos by (simp add: readAtLeastLoop_step rd1)
  have s2: "readAtLeastLoop listReader [] ?b k (length s) None
      = readAtLeastLoop listReader [] ?b k (length s) (Some EOF)"
    using assms(2) by (subst readAtLeastLoop_step) (simp_all only: rd2 prod.case, simp)
  have s3: "readAtLeastLoop listReader [] ?b k (length s) (Some EOF)
      = Some (?b, length s, Some EOF, [])"
    by (simp add: readAtLeastLoop_exit)
  show ?thesis using assms pos by (simp add: ReadFull_def ReadAtLeast_def s1 s2 s3)
qed

lemma VideoPacketMaxBufferSize_pos: "0 < VideoPacketMaxBufferSize"
  by (simp add: VideoPacketMaxBufferSize_def)

lemma streamRaw_listReader_Nil: "streamRaw listReader [] eff = Some (eff, [])"
  by (subst streamRaw.simps)
    (simp add: ReadFull_listReader_Nil [OF VideoPacketMaxBufferSize_pos])

lemma streamRaw_listReader_short:
  assumes "s \<noteq> []" "length s < VideoPacketMaxBufferSize"
  shows "streamRaw listReader s eff =
    Some (eff\<lparr>senderData := senderData eff @ [s @ replicate (VideoPacketMaxBufferSize - length s) 0]\<rparr>, [])"
  using assms by (subst streamRaw.simps) (simp add: ReadFull_listReader_short)

lemma streamRaw_listReader_full:
  assumes "VideoPacketMaxBufferSize \<le> length s"
  shows "streamRaw listReader s eff =
    streamRaw listReader (drop VideoPacketMaxBufferSize s)
      (eff\<lparr>senderData := senderData eff @ [take VideoPacketMaxBufferSize s]\<rparr>)"
  by (subst streamRaw.simps)
    (simp add: ReadFull_listReader_full [OF VideoPacketMaxBufferSize_pos assms])

lemma rawLoop_EOF:
  "parseVideoPacketRequest rd r = Some (Inl e, r') \<Longrightarrow> rawLoop rd r eff = Some (eff, r')"
  by (subst rawLoop.simps) simp

lemma rawLoop_frame:
  "parseVideoPacketRequest rd r = Some (Inr req, r1) \<Longrightarrow>
   streamRaw rd r1 (eff\<lparr>senderData := senderData eff @ [req]\<rparr>) = Some (eff', r2) \<Longrightarrow>
   rawLoop rd r eff = rawLoop rd r2 eff'"
  by (subst rawLoop.simps) simp

lemma handleVideoPacketRequest_effects_aux:
  "handleVideoPacketRequest rd r eff = Some y \<Longrightarrow>
     senders (fst y) = senders eff \<and> senderData (fst y) = senderData eff \<and>
     (\<exists>fs e. delivered (fst y) = delivered eff @ fs \<and>
        successiveCalls (length fs + 1) rd r = Some (map Inr fs @ [Inl e], snd y))"
proof (induction rd r eff y
    rule: handleVideoPacketRequest.raw_induct [rotated 1, consumes 1, case_names step])
  case (step h rd r eff y)
  from step(2) obtain res r1 where p: "parseVideoPacketRequest rd r = Some (res, r1)"
    and rest: "(case res of Inl err \<Rightarrow> Some (eff, r1)
                | Inr req \<Rightarrow> h rd r1 (eff\<lparr>delivered := delivered eff @ [req]\<rparr>)) = Some y"
    by (auto simp: bind_eq_Some_conv)
  show ?case
  proof (cases res)
    case (Inl e)
    with rest have y: "y = (eff, r1)" by simp
    have "successiveCalls (length ([] :: byte list list) + 1) rd r
        = Some (map Inr [] @ [Inl e], r1)"
      using p Inl by simp
    with y show ?thesis by (intro conjI exI [of _ "[]"] exI [of _ e]) simp_all
  next
    case (Inr req)
    let ?eff2 = "eff\<lparr>delivered := delivered eff @ [req]\<rparr>"
    from rest Inr have "h rd r1 ?eff2 = Some y" by simp
    from step(1) [OF this] obtain fs e where
      s: "senders (fst y) = senders eff" "senderData (fst y) = senderData eff"
      and d: "delivered (fst y) = (delivered eff @ [req]) @ fs"
      and c: "successiveCalls (length fs + 1) rd r1 = Some (map Inr fs @ [Inl e], snd y)"
      by auto
    from p Inr have p': "parseVideoPacketRequest rd r = Some (Inr req, r1)" by simp
    have "successiveCalls (Suc (length fs + 1)) rd r
        = Some (Inr req # map Inr fs @ [Inl e], snd y)"
      by (rule successiveCalls_Suc_Some [OF p' c])
    then have c': "successiveCalls (length (req # fs) + 1) rd r
        = Some (map Inr (req # fs) @ [Inl e], snd y)"
      by (simp del: successiveCalls.simps)
    from d have d': "delivered (fst y) = delivered eff @ (req # fs)" by simp
    from s d' c' show ?thesis by blast
  qed
qed

lemma streamRaw_effects_aux:
  "streamRaw rd r eff = Some y \<Longrightarrow>
     delivered (fst y) = delivered eff \<and> senders (fst y) = senders eff"
proof (induction rd r eff y rule: streamRaw.raw_induct [rotated 1, consumes 1, case_names step])
  case (step h rd r eff y)
  from step(2) obtain buf n err r1 where rf: "ReadFull rd r (replicate VideoPacketMaxBufferSize 0) = Some (buf, n, err, r1)"
    and rest: "(case err of
                  Some e \<Rightarrow> Some (if n > 0 then eff\<lparr>senderData := senderData eff @ [buf]\<rparr> else eff, r1)
                | None \<Rightarrow> h rd r1 (eff\<lparr>senderData := senderData eff @ [buf]\<rparr>)) = Some y"
    by (auto simp: bind_eq_Some_conv)
  show ?case
  proof (cases err)
    case None
    with rest have "h rd r1 (eff\<lparr>senderData := senderData eff @ [buf]\<rparr>) = Some y" by simp
    from step(1) [OF this] show ?thesis by simp
  next
    case (Some e)
    with rest show ?thesis by (auto split: if_splits)
  qed
qed

lemma rawLoop_effects_aux:
  "rawLoop rd r eff = Some y \<Longrightarrow>
     delivered (fst y) = delivered eff \<and> senders (fst y) = senders eff"
proof (induction rd r eff y rule: rawLoop.raw_induct [rotated 1, consumes 1, case_names step])
  case (step h rd r eff y)
  from step(2) obtain res r1 where p: "parseVideoPacketRequest rd r = Some (res, r1)"
    and rest: "(case res of Inl err \<Rightarrow> Some (eff, r1)
                | Inr req \<Rightarrow>
                    Option.bind (streamRaw rd r1 (eff\<lparr>senderData := senderData eff @ [req]\<rparr>))
                      (\<lambda>(eff', r2). h rd r2 eff')) = Some y"
    by (auto simp: bind_eq_Some_conv)
  show ?case
  proof (cases res)
    case (Inl e)
    with rest show ?thesis by auto
  next
    case (Inr req)
    with rest obtain eff' r2 where
      st: "streamRaw rd r1 (eff\<lparr>senderData := senderData eff @ [req]\<rparr>) = Some (eff', r2)"
      and hh: "h rd r2 eff' = Some y"
      by (auto simp: bind_eq_Some_conv)
    from streamRaw_effects_aux [OF st] step(1) [OF hh] show ?thesis by simp
  qed
qed

lemma handleVideoPacketRaw_effects:
  "handleVideoPacketRaw rd r newSender eff = Some (eff', r') \<Longrightarrow>
     delivered eff' = delivered eff \<and> senders eff' = senders eff + 1"
proof -
  assume a: "handleVideoPacketRaw rd r newSender eff = Some (eff', r')"
  show ?thesis
  proof (cases newSender)
    case None
    with a have "rawLoop rd r (eff\<lparr>senders := senders eff + 1\<rparr>) = Some (eff', r')"
      by (simp add: handleVideoPacketRaw_def)
    from rawLoop_effects_aux [OF this] show ?thesis by simp
  next
    case (Some e)
    with a show ?thesis by (auto simp: handleVideoPacketRaw_def)
  qed
qed

lemma streamRaw_listReader_total: "\<exists>eff'. streamRaw listReader s eff = Some (eff', [])"
proof (induction s arbitrary: eff rule: length_induct)
  case (1 s)
  consider "s = []" | "s \<noteq> []" "length s < VideoPacketMaxBufferSize"
    | "VideoPacketMaxBufferSize \<le> length s" by fastforce
  then show ?case
  proof cases
    case 1
    then show ?thesis by (simp add: streamRaw_listReader_Nil)
  next
    case 2
    then show ?thesis by (simp add: streamRaw_listReader_short)
  next
    case 3
    then have "length (drop VideoPacketMaxBufferSize s) < length s"
      using VideoPacketMaxBufferSize_pos by simp
    with 1 have "\<exists>eff'. streamRaw listReader (drop VideoPacketMaxBufferSize s)
        (eff\<lparr>senderData := senderData eff @ [take VideoPacketMaxBufferSize s]\<rparr>) = Some (eff', [])"
      by blast
    then show ?thesis by (simp add: streamRaw_listReader_full [OF 3])
  qed
qed

lemma rawLoop_listReader_total: "\<exists>eff' s'. rawLoop listReader s eff = Some (eff', s')"
proof -
  obtain x s1 where p: "parseVideoPacketRequest listReader s = Some (x, s1)"
    using parse_listReader_total [of s] by blast
  show ?thesis
  proof (cases x)
    case (Inl e)
    with p show ?thesis by (simp add: rawLoop_EOF)
  next
    case (Inr req)
    obtain eff' where st: "streamRaw listReader s1 (eff\<lparr>senderData := senderData eff @ [req]\<rparr>)
        = Some (eff', [])"
      using streamRaw_listReader_total by blast
    from p Inr have p': "parseVideoPacketRequest listReader s = Some (Inr req, s1)" by simp
    have "rawLoop listReader s eff = rawLoop listReader [] eff'"
      by (rule rawLoop_frame [OF p' st])
    then show ?thesis by (simp add: rawLoop_EOF [OF parse_listReader_Nil])
  qed
qed

lemma handleVideoPacketRequest_listReader_total:
  "\<exists>eff' s'. handleVideoPacketRequest listReader s eff = Some (eff', s')"
proof (induction s arbitrary: eff rule: length_induct)
  case (1 s)
  obtain x s1 where p: "parseVideoPacketRequest listReader s = Some (x, s1)"
    and pr: "x = Inl EOF \<or> length s1 < length s"
    using parse_listReader_total [of s] by blast
  show ?case
  proof (cases x)
    case (Inl e)
    with p show ?thesis by (subst handleVideoPacketRequest.simps) simp
  next
    case (Inr req)
    with pr have "length s1 < length s" by simp
    with 1 have "\<exists>eff' s'. handleVideoPacketRequest listReader s1
        (eff\<lparr>delivered := delivered eff @ [req]\<rparr>) = Some (eff', s')" by blast
    with p Inr show ?thesis by (subst handleVideoPacketRequest.simps) simp
  qed
qed

lemma handleVideoPacketRequest_EOF:
  "parseVideoPacketRequest rd r = Some (Inl e, r') \<Longrightarrow>
   handleVideoPacketRequest rd r eff = Some (eff, r')"
  by (subst handleVideoPacketRequest.simps) simp

lemma handleVideoPacketRequest_frame:
  "parseVideoPacketRequest rd r = Some (Inr req, r') \<Longrightarrow>
   handleVideoPacketRequest rd r eff
     = handleVideoPacketRequest rd r' (eff\<lparr>delivered := delivered eff @ [req]\<rparr>)"
  by (subst handleVideoPacketRequest.simps) simp

lemma parse_frame_length:
  assumes "eofOnly rd" and "parseVideoPacketRequest rd q = Some (Inr f, q')"
  shows "17 \<le> unat (Uint32 (take 4 (drop 1 f))) \<and>
         unat (Uint32 (take 4 (drop 1 f))) \<le> 17 + 10 * 1024 * 1024"
proof -
  let ?w = "Uint32 (take 4 (drop 1 f))"
  have "validFrame f" using parse_frame_aux [OF assms(2)] assms(1) by simp
  then have b: "0 \<le> uint ?w - 17" "uint ?w - 17 \<le> 10485760"
    by (simp_all add: validFrame_def payloadLength_def)
  have "int 17 \<le> int (unat ?w)" "int (unat ?w) \<le> int 10485777"
    using b by simp_all
  then have "17 \<le> unat ?w" "unat ?w \<le> 10485777"
    unfolding of_nat_le_iff .
  then show ?thesis by simp
qed

section \<open>The specified properties\<close>

text \<open>
  Claim C1. On the reader over the concatenation of \<open>N\<close> valid frames, \<open>N + 1\<close> successive
  calls of \<open>parseVideoPacketRequest\<close> return the \<open>N\<close> frames in order, each equal to its
  segment of the input, and then the end-of-stream error; the reader ends empty.
\<close>

theorem C1_successive_frames:
  assumes "\<forall>f \<in> set fs. validFrame f"
  shows "successiveCalls (length fs + 1) listReader (concat fs) = Some (map Inr fs @ [Inl EOF], [])"
  using assms
proof (induction fs)
  case Nil
  then show ?case by (simp add: parse_listReader_Nil)
next
  case (Cons f fs)
  then have "validFrame f" by simp
  then have p: "parseVideoPacketRequest listReader (f @ concat fs) = Some (Inr f, concat fs)"
    by (rule parse_valid)
  from Cons have IH: "successiveCalls (length fs + 1) listReader (concat fs)
      = Some (map Inr fs @ [Inl EOF], [])" by simp
  show ?case
    using successiveCalls_Suc_Some [OF p IH] by (simp del: successiveCalls.simps)
qed

text \<open>Two minimal frames: three calls give both frames and then \<open>EOF\<close>.\<close>

theorem C1_successive_frames_witness:
  "validFrame minimalFrame \<and>
   successiveCalls 3 listReader (minimalFrame @ minimalFrame)
     = Some ([Inr minimalFrame, Inr minimalFrame, Inl EOF], [])"
  using C1_successive_frames [of "[minimalFrame, minimalFrame]"]
  by (simp add: validFrame_minimalFrame numeral_3_eq_3 del: successiveCalls.simps)

text \<open>
  Claim C4. On the 17 bytes \<open>0x26 00 00 00 11 01\<close>, ten zero bytes, \<open>0x28\<close> the parser
  returns exactly these 17 bytes; the payload length of the frame is 0.
\<close>

theorem C4_minimal_frame:
  "parseVideoPacketRequest listReader ([0x26, 0x00, 0x00, 0x00, 0x11, 0x01] @ replicate 10 0x00 @ [0x28])
     = Some (Inr ([0x26, 0x00, 0x00, 0x00, 0x11, 0x01] @ replicate 10 0x00 @ [0x28]), []) \<and>
   length ([0x26, 0x00, 0x00, 0x00, 0x11, 0x01] @ replicate 10 (0x00 :: byte) @ [0x28]) = 17 \<and>
   payloadLength ([0x26, 0x00, 0x00, 0x00, 0x11, 0x01] @ replicate 10 0x00 @ [0x28]) = 0"
  using parse_valid [OF validFrame_minimalFrame, of "[]"]
  by (simp add: minimalFrame_def payloadLength_def Uint32_def)

text \<open>
  Claim C5. The minimal frame with tail \<open>0x29\<close> followed at once by a valid frame \<open>g\<close>:
  the first candidate is rejected (the loop body ends in \<^verbatim>\<open>continue\<close> with the reader at
  the start of \<open>g\<close>), and the same call returns \<open>g\<close> byte for byte.
\<close>

theorem C5_bad_tail_then_valid:
  assumes "validFrame g"
  shows "parseBody listReader
           ([0x00, 0x00, 0x00, 0x11, 0x01] @ replicate 10 0x00 @ [0x29] @ g @ rest) [0x26]
           = (Continue, g @ rest) \<and>
         parseVideoPacketRequest listReader
           ([0x26, 0x00, 0x00, 0x00, 0x11, 0x01] @ replicate 10 0x00 @ [0x29] @ g @ rest)
           = Some (Inr g, rest)"
proof -
  have u: "unat (Uint32 [0x00, 0x00, 0x00, 0x11]) = 17 + length ([] :: byte list)"
    by (simp add: Uint32_def)
  have b: "parseBody listReader
           ([0x00, 0x00, 0x00, 0x11] @ 1 # replicate 10 0x00 @ [] @ 0x29 # g @ rest) [0x26]
           = (Continue, g @ rest)"
    by (subst parseBody_listReader_frame [OF _ _ u]) simp_all
  have p: "parseVideoPacketRequest listReader (g @ rest) = Some (Inr g, rest)"
    using assms by (rule parse_valid)
  have "parseVideoPacketRequest listReader
           (0x26 # [0x00, 0x00, 0x00, 0x11] @ 1 # replicate 10 0x00 @ [] @ 0x29 # g @ rest)
           = Some (Inr g, rest)"
    by (subst parse_listReader_header) (simp only: b p prod.case step.case)
  with b show ?thesis by simp
qed

text \<open>The valid frame that follows is the minimal frame.\<close>

theorem C5_bad_tail_then_valid_witness:
  "validFrame minimalFrame \<and>
   parseVideoPacketRequest listReader
     ([0x26, 0x00, 0x00, 0x00, 0x11, 0x01] @ replicate 10 0x00 @ [0x29] @ minimalFrame @ [])
     = Some (Inr minimalFrame, [])"
  using C5_bad_tail_then_valid [OF validFrame_minimalFrame, of "[]"]
  by (simp add: validFrame_minimalFrame)

text \<open>
  Claim C10. On the reader over a finite byte sequence \<open>s\<close> the call returns: there is a
  result, and the reader it leaves is no longer than \<open>s\<close>, shorter unless the result is
  the end-of-stream error. The header scan from \<open>s\<close> returns too, with the end-of-stream
  error or having consumed at least one byte, and the rest of a pass of the outer loop
  never lengthens the remaining input.
\<close>

theorem C10_terminates:
  "(\<exists>x s'. parseVideoPacketRequest listReader s = Some (x, s') \<and> length s' \<le> length s \<and>
       (x = Inl EOF \<or> length s' < length s)) \<and>
   (\<exists>h s1. scanHeader listReader s (replicate 1 0) = Some (h, s1) \<and>
       (h = Inl EOF \<or> length s1 < length s)) \<and>
   length (snd (parseBody listReader s proto)) \<le> length s"
proof (intro conjI)
  show "\<exists>x s'. parseVideoPacketRequest listReader s = Some (x, s') \<and> length s' \<le> length s \<and>
       (x = Inl EOF \<or> length s' < length s)"
    by (rule parse_listReader_total)
  show "\<exists>h s1. scanHeader listReader s (replicate 1 0) = Some (h, s1) \<and>
       (h = Inl EOF \<or> length s1 < length s)"
    by (rule scanHeader_listReader_progress)
  show "length (snd (parseBody listReader s proto)) \<le> length s"
    by (rule parseBody_listReader_length [of s proto "fst (parseBody listReader s proto)"]) simp
qed

text \<open>
  Claim C9. With a reader whose only error is end-of-stream, every buffer that
  \<open>parseVideoPacketRequest\<close> returns is a valid frame: first byte \<open>0x26\<close>, byte 5 equal to 1,
  last byte \<open>0x28\<close>, payload length (the big-endian value of bytes 1 to 4 minus 17) between
  0 and \<open>10 * 1024 * 1024\<close>, and size 17 plus the payload length. Full reads are not needed
  for this.
\<close>

theorem C9_returned_frame_valid:
  assumes "eofOnly rd" and "parseVideoPacketRequest rd r = Some (Inr f, r')"
  shows "f ! 0 = 0x26 \<and> f ! 5 = 1 \<and> last f = 0x28 \<and>
         0 \<le> payloadLength f \<and> payloadLength f \<le> 10 * 1024 * 1024 \<and>
         int (length f) = 17 + payloadLength f \<and>
         payloadLength f = uint (Uint32 (take 4 (drop 1 f))) - 17"
proof -
  have "validFrame f" using parse_frame_aux [OF assms(2)] assms(1) by simp
  then show ?thesis by (simp add: validFrame_def payloadLength_def)
qed

text \<open>The reader over the 17 bytes of the minimal frame.\<close>

theorem C9_returned_frame_valid_witness:
  "eofOnly listReader \<and>
   parseVideoPacketRequest listReader minimalFrame = Some (Inr minimalFrame, []) \<and>
   minimalFrame ! 0 = 0x26 \<and> minimalFrame ! 5 = 1 \<and> last minimalFrame = 0x28 \<and>
   payloadLength minimalFrame = 0 \<and> int (length minimalFrame) = 17 + payloadLength minimalFrame"
proof -
  have p: "payloadLength minimalFrame = 0"
    by (simp add: payloadLength_def minimalFrame_def Uint32_def)
  show ?thesis
    using C9_returned_frame_valid [OF eofOnly_listReader parse_minimalFrame]
      eofOnly_listReader parse_minimalFrame p
    by simp
qed

text \<open>
  Claim C3. End-of-stream at any read step is fatal for the call: a \<^verbatim>\<open>Read\<close> that reports
  \<^verbatim>\<open>io.EOF\<close> in the header scan, or for the length, version, reserved, payload or tail
  bytes, makes that step fail with \<open>EOF\<close>, and the call returns this error with the
  reader as that read left it (no further read, no retry). Every malformed-frame
  condition is handled in the same call: a byte other than \<open>0x26\<close> continues the header
  scan; a wrong version byte, a payload length above 10 MiB (which is also where a length
  field below 17 ends up after wrapping) and a wrong tail byte end the pass in
  \<^verbatim>\<open>continue\<close>, after which the call is a fresh scan from the reader reached. The only
  error the call ever returns is \<open>EOF\<close>, and then a read reported \<open>EOF\<close> last.
\<close>

theorem C3_eof_fatal_malformed_resumed:
  "(Read rd r p = (b, n, Some EOF, r') \<longrightarrow> scanHeader rd r p = Some (Inl EOF, r')) \<and>
   (scanHeader rd r0 (replicate 1 0) = Some (Inl e, r') \<longrightarrow>
      parseVideoPacketRequest rd r0 = Some (Inl e, r')) \<and>
   (Read rd r (replicate 4 0) = (b, n, Some EOF, r') \<longrightarrow>
      parseBody rd r proto = (Fail EOF, r')) \<and>
   (readLength rd r = (Next (l, dl), r2) \<and>
    Read rd r2 (replicate 1 0) = (b, n, Some EOF, r') \<longrightarrow>
      parseBody rd r proto = (Fail EOF, r')) \<and>
   (readLength rd r = (Next (l, dl), r2) \<and> readVersion rd r2 = (Next v, r3) \<and>
    Read rd r3 (replicate 10 0) = (b, n, Some EOF, r') \<longrightarrow>
      parseBody rd r proto = (Fail EOF, r')) \<and>
   (readLength rd r = (Next (l, dl), r2) \<and> readVersion rd r2 = (Next v, r3) \<and>
    readReserved rd r3 = (Next res, r4) \<and> 0 < dl \<and> dl \<le> 1024 * 1024 * 10 \<and>
    Read rd r4 (replicate (unat dl) 0) = (b, n, Some EOF, r') \<longrightarrow>
      parseBody rd r proto = (Fail EOF, r')) \<and>
   (readLength rd r = (Next (l, dl), r2) \<and> readVersion rd r2 = (Next v, r3) \<and>
    readReserved rd r3 = (Next res, r4) \<and> readData rd r4 dl = (Next d, r5) \<and>
    Read rd r5 (replicate 1 0) = (b, n, Some EOF, r') \<longrightarrow>
      parseBody rd r proto = (Fail EOF, r')) \<and>
   (scanHeader rd r0 (replicate 1 0) = Some (Inr proto, r) \<and>
    parseBody rd r proto = (Fail e, r') \<longrightarrow>
      parseVideoPacketRequest rd r0 = Some (Inl e, r')) \<and>
   (Read rd r p = (b, n, None, r') \<and> b ! 0 \<noteq> 0x26 \<longrightarrow>
      scanHeader rd r p = scanHeader rd r' b) \<and>
   (Read rd r (replicate 4 0) = (l, n, None, r2) \<and>
    (unat (Uint32 l) < 17 \<or> 17 + 10 * 1024 * 1024 < unat (Uint32 l)) \<longrightarrow>
      readLength rd r = (Next (l, ucast (Uint32 l) - 17), r2) \<and>
      (1024 * 1024 * 10 :: 64 word) < ucast (Uint32 l) - 17) \<and>
   (readLength rd r = (Next (l, dl), r2) \<and>
    Read rd r2 (replicate 1 0) = (b, n, None, r') \<and> b ! 0 \<noteq> 1 \<longrightarrow>
      parseBody rd r proto = (Continue, r')) \<and>
   (readLength rd r = (Next (l, dl), r2) \<and> readVersion rd r2 = (Next v, r3) \<and>
    readReserved rd r3 = (Next res, r4) \<and> 1024 * 1024 * 10 < dl \<longrightarrow>
      parseBody rd r proto = (Continue, r4)) \<and>
   (readLength rd r = (Next (l, dl), r2) \<and> readVersion rd r2 = (Next v, r3) \<and>
    readReserved rd r3 = (Next res, r4) \<and> readData rd r4 dl = (Next d, r5) \<and>
    Read rd r5 (replicate 1 0) = (b, n, None, r') \<and> b ! 0 \<noteq> 0x28 \<longrightarrow>
      parseBody rd r proto = (Continue, r')) \<and>
   (scanHeader rd r0 (replicate 1 0) = Some (Inr proto, r) \<and>
    parseBody rd r proto = (Continue, r') \<longrightarrow>
      parseVideoPacketRequest rd r0 = parseVideoPacketRequest rd r') \<and>
   (parseVideoPacketRequest rd r0 = Some (Inl e, r') \<longrightarrow>
      e = EOF \<and> (\<exists>r1 p b n. Read rd r1 p = (b, n, Some EOF, r')))"
  apply (intro conjI impI)
  subgoal by (rule scanHeader_EOF)
  subgoal by (rule parse_unfold_Inl)
  subgoal by (rule parseBody_length_EOF)
  subgoal by (elim conjE) (rule parseBody_version_EOF)
  subgoal by (elim conjE) (rule parseBody_reserved_EOF)
  subgoal by (elim conjE) (rule parseBody_data_EOF)
  subgoal by (elim conjE) (rule parseBody_tail_EOF)
  subgoal by (elim conjE) (rule parse_unfold_Fail)
  subgoal by (elim conjE) (rule scanHeader_wrong_byte)
  subgoal by (elim conjE) (rule readLength_bad_length [THEN conjunct1])
  subgoal by (elim conjE) (rule readLength_bad_length [THEN conjunct2])
  subgoal by (elim conjE) (rule parseBody_version_wrong)
  subgoal by (elim conjE) (rule parseBody_too_long)
  subgoal by (elim conjE) (rule parseBody_tail_wrong)
  subgoal by (elim conjE) (rule parse_unfold_Continue)
  subgoal by (rule parse_Inl [THEN conjunct1])
  subgoal by (rule parse_Inl [THEN conjunct2])
  done

text \<open>
  The reader over short byte sequences: the stream ends at the header scan and after each
  field in turn; then a wrong header byte, a wrong version, a length field of 16 and a
  wrong tail.
\<close>

theorem C3_eof_fatal_malformed_resumed_witness:
  "scanHeader listReader [] (replicate 1 0) = Some (Inl EOF, []) \<and>
   parseVideoPacketRequest listReader [] = Some (Inl EOF, []) \<and>
   parseBody listReader [] [0x26] = (Fail EOF, []) \<and>
   parseVideoPacketRequest listReader [0x26] = Some (Inl EOF, []) \<and>
   parseBody listReader [0, 0, 0, 0x11] [0x26] = (Fail EOF, []) \<and>
   parseBody listReader [0, 0, 0, 0x11, 1] [0x26] = (Fail EOF, []) \<and>
   parseBody listReader ([0, 0, 0, 0x12, 1] @ replicate 10 0) [0x26] = (Fail EOF, []) \<and>
   parseBody listReader ([0, 0, 0, 0x11, 1] @ replicate 10 0) [0x26] = (Fail EOF, []) \<and>
   scanHeader listReader [7] (replicate 1 0) = scanHeader listReader [] [7] \<and>
   parseBody listReader [0, 0, 0, 0x11, 2] [0x26] = (Continue, []) \<and>
   parseBody listReader ([0, 0, 0, 0x10, 1] @ replicate 10 0) [0x26] = (Continue, []) \<and>
   parseBody listReader ([0, 0, 0, 0x11, 1] @ replicate 10 0 @ [0x29]) [0x26] = (Continue, []) \<and>
   parseVideoPacketRequest listReader [0x26, 0, 0, 0, 0x11, 2]
     = parseVideoPacketRequest listReader []"
proof -
  note C3 = C3_eof_fatal_malformed_resumed
  let ?z = "replicate 10 (0 :: byte)"
  have e1: "Read listReader [] (replicate 1 0) = (replicate 1 0, 0, Some EOF, [])"
    and e4: "Read listReader [] (replicate 4 0) = (replicate 4 0, 0, Some EOF, [])"
    and e10: "Read listReader [] (replicate 10 0) = (replicate 10 0, 0, Some EOF, [])"
    by (rule Read_listReader_Nil)+
  have d0: "(ucast (Uint32 [0, 0, 0, 0x11]) :: 64 word) - 17 = 0"
    and d1: "(ucast (Uint32 [0, 0, 0, 0x12]) :: 64 word) - 17 = 1"
    and d16: "unat (Uint32 [0, 0, 0, 0x10]) < 17"
    by (simp_all add: Uint32_def)
  have l17: "readLength listReader ([0, 0, 0, 0x11] @ ys) = (Next ([0, 0, 0, 0x11], 0), ys)"
    and l18: "readLength listReader ([0, 0, 0, 0x12] @ ys) = (Next ([0, 0, 0, 0x12], 1), ys)" for ys
    using readLength_listReader [of "[0, 0, 0, 0x11]" ys]
      readLength_listReader [of "[0, 0, 0, 0x12]" ys] d0 d1
    by simp_all
  have v1: "readVersion listReader (1 # ys) = (Next [1], ys)" for ys
    by (simp add: readVersion_listReader)
  have rz: "readReserved listReader (?z @ ys) = (Next ?z, ys)" for ys
    by (simp add: readReserved_listReader)
  have c1: "scanHeader listReader [] (replicate 1 0) = Some (Inl EOF, [])"
    using C3 [where rd = listReader and r = "[]" and p = "replicate 1 0", THEN conjunct1] e1
    by simp
  have c2: "parseVideoPacketRequest listReader [] = Some (Inl EOF, [])"
    using C3 [where rd = listReader and ?r0.0 = "[]" and e = EOF and r' = "[]"] c1 by simp
  have c3: "parseBody listReader [] [0x26] = (Fail EOF, [])"
    using C3 [where rd = listReader and r = "[]" and proto = "[0x26]" and r' = "[]"] e4 by simp
  have h: "scanHeader listReader (0x26 # ys) (replicate 1 0) = Some (Inr [0x26], ys)" for ys
    by (simp add: scanHeader_listReader)
  have c4: "parseVideoPacketRequest listReader [0x26] = Some (Inl EOF, [])"
    using C3 [where rd = listReader and ?r0.0 = "[0x26]" and proto = "[0x26]" and r = "[]"
        and e = EOF and r' = "[]"] h [of "[]"] c3 by simp
  have c5: "parseBody listReader [0, 0, 0, 0x11] [0x26] = (Fail EOF, [])"
    using C3 [where rd = listReader and r = "[0, 0, 0, 0x11]" and proto = "[0x26]"
        and l = "[0, 0, 0, 0x11]" and dl = 0 and ?r2.0 = "[]" and r' = "[]"
        and b = "replicate 1 0" and n = 0] l17 [of "[]"] e1 by simp
  have c6: "parseBody listReader [0, 0, 0, 0x11, 1] [0x26] = (Fail EOF, [])"
    using C3 [where rd = listReader and r = "[0, 0, 0, 0x11, 1]" and proto = "[0x26]"
        and l = "[0, 0, 0, 0x11]" and dl = 0 and ?r2.0 = "[1]" and v = "[1]" and ?r3.0 = "[]"
        and r' = "[]" and b = "replicate 10 0" and n = 0] l17 [of "[1]"] v1 [of "[]"] e10
    by simp
  have c7: "parseBody listReader ([0, 0, 0, 0x12, 1] @ ?z) [0x26] = (Fail EOF, [])"
    using C3 [where rd = listReader and r = "[0, 0, 0, 0x12, 1] @ ?z" and proto = "[0x26]"
        and l = "[0, 0, 0, 0x12]" and dl = 1 and ?r2.0 = "1 # ?z" and v = "[1]"
        and ?r3.0 = "?z" and res = "?z" and ?r4.0 = "[]"
        and r' = "[]" and b = "replicate 1 0" and n = 0]
      l18 [of "1 # ?z"] v1 [of "?z"] rz [of "[]"] e1
    by simp
  have dz: "readData listReader [] 0 = (Next [], [])" by (rule readData_zero)
  have c8: "parseBody listReader ([0, 0, 0, 0x11, 1] @ ?z) [0x26] = (Fail EOF, [])"
    using C3 [where rd = listReader and r = "[0, 0, 0, 0x11, 1] @ ?z" and proto = "[0x26]"
        and l = "[0, 0, 0, 0x11]" and dl = 0 and ?r2.0 = "1 # ?z" and v = "[1]"
        and ?r3.0 = "?z" and res = "?z" and ?r4.0 = "[]" and d = "[]" and ?r5.0 = "[]"
        and r' = "[]" and b = "replicate 1 0" and n = 0]
      l17 [of "1 # ?z"] v1 [of "?z"] rz [of "[]"] dz e1
    by simp
  have r7: "Read listReader [7] (replicate 1 0) = ([7], 1, None, [])"
    using Read_listReader_exact [of "[7]" 1 "[]"] by simp
  have c9: "scanHeader listReader [7] (replicate 1 0) = scanHeader listReader [] [7]"
    using C3 [where rd = listReader and r = "[7]" and p = "replicate 1 0" and b = "[7]"
        and n = 1 and r' = "[]"] r7 by simp
  have r2: "Read listReader [2] (replicate 1 0) = ([2], 1, None, [])"
    using Read_listReader_exact [of "[2]" 1 "[]"] by simp
  have c10: "parseBody listReader [0, 0, 0, 0x11, 2] [0x26] = (Continue, [])"
    using C3 [where rd = listReader and r = "[0, 0, 0, 0x11, 2]" and proto = "[0x26]"
        and l = "[0, 0, 0, 0x11]" and dl = 0 and ?r2.0 = "[2]" and b = "[2]" and n = 1
        and r' = "[]"] l17 [of "[2]"] r2 by simp
  have r16: "Read listReader ([0, 0, 0, 0x10, 1] @ ?z) (replicate 4 0)
      = ([0, 0, 0, 0x10], 4, None, 1 # ?z)"
    using Read_listReader_exact [of "[0, 0, 0, 0x10]" 4 "1 # ?z"] by simp
  from C3 [where rd = listReader and r = "[0, 0, 0, 0x10, 1] @ ?z" and l = "[0, 0, 0, 0x10]"
        and n = 4 and ?r2.0 = "1 # ?z"] r16 d16
  have l16: "readLength listReader ([0, 0, 0, 0x10, 1] @ ?z)
      = (Next ([0, 0, 0, 0x10], ucast (Uint32 [0, 0, 0, 0x10]) - 17), 1 # ?z)"
    and big: "(1024 * 1024 * 10 :: 64 word) < ucast (Uint32 [0, 0, 0, 0x10]) - 17"
    by simp_all
  have c11: "parseBody listReader ([0, 0, 0, 0x10, 1] @ ?z) [0x26] = (Continue, [])"
    using C3 [where rd = listReader and r = "[0, 0, 0, 0x10, 1] @ ?z" and proto = "[0x26]"
        and l = "[0, 0, 0, 0x10]" and dl = "ucast (Uint32 [0, 0, 0, 0x10]) - 17"
        and ?r2.0 = "1 # ?z" and v = "[1]" and ?r3.0 = "?z" and res = "?z" and ?r4.0 = "[]"]
      l16 v1 [of "?z"] rz [of "[]"] big
    by simp
  have r29: "Read listReader [0x29] (replicate 1 0) = ([0x29], 1, None, [])"
    using Read_listReader_exact [of "[0x29]" 1 "[]"] by simp
  have dz': "readData listReader [0x29] 0 = (Next [], [0x29])" by (rule readData_zero)
  have c12: "parseBody listReader ([0, 0, 0, 0x11, 1] @ ?z @ [0x29]) [0x26] = (Continue, [])"
    using C3 [where rd = listReader and r = "[0, 0, 0, 0x11, 1] @ ?z @ [0x29]"
        and proto = "[0x26]" and l = "[0, 0, 0, 0x11]" and dl = 0 and ?r2.0 = "1 # ?z @ [0x29]"
        and v = "[1]" and ?r3.0 = "?z @ [0x29]" and res = "?z" and ?r4.0 = "[0x29]"
        and d = "[]" and ?r5.0 = "[0x29]" and r' = "[]" and b = "[0x29]" and n = 1]
      l17 [of "1 # ?z @ [0x29]"] v1 [of "?z @ [0x29]"] rz [of "[0x29]"] dz' r29
    by simp
  have c13: "parseVideoPacketRequest listReader [0x26, 0, 0, 0, 0x11, 2]
     = parseVideoPacketRequest listReader []"
    using C3 [where rd = listReader and ?r0.0 = "[0x26, 0, 0, 0, 0x11, 2]" and proto = "[0x26]"
        and r = "[0, 0, 0, 0x11, 2]" and r' = "[]"] h [of "[0, 0, 0, 0x11, 2]"] c10
    by simp
  from c1 c2 c3 c4 c5 c6 c7 c8 c9 c10 c11 c12 c13 show ?thesis by blast
qed

text \<open>
  Claim C6 fails as stated. First stream: \<open>0x26\<close>, the corrupt byte \<open>0xFF\<close>, then the
  minimal frame. The candidate takes \<open>FF 26 00 00\<close> as its length and the frame's fourth
  byte \<open>00\<close> as its version, is rejected, and the scan resumes inside the valid frame: the
  call returns the end-of-stream error with the input used up. Second stream: a valid
  frame whose last reserved byte is \<open>0x26\<close>, with the byte \<open>0xFF\<close> injected after its header,
  followed by the minimal frame; again the minimal frame is never returned.
\<close>

theorem C6_resync_counterexample:
  "validFrame minimalFrame \<and>
   parseBody listReader (0xFF # minimalFrame) [0x26]
     = (Continue, [0x11, 0x01] @ replicate 10 0x00 @ [0x28]) \<and>
   parseVideoPacketRequest listReader ([0x26, 0xFF] @ minimalFrame) = Some (Inl EOF, []) \<and>
   validFrame ([0x26, 0, 0, 0, 0x11, 1] @ replicate 9 0 @ [0x26, 0x28]) \<and>
   parseVideoPacketRequest listReader
     ([0x26, 0xFF, 0, 0, 0, 0x11, 1] @ replicate 9 0 @ [0x26, 0x28] @ minimalFrame)
     = Some (Inl EOF, []) \<and>
   parseVideoPacketRequest listReader [] = Some (Inl EOF, [])"
proof -
  have l1: "readLength listReader ([0xFF, 0x26, 0, 0] @ ys)
      = (Next ([0xFF, 0x26, 0, 0], ucast (Uint32 [0xFF, 0x26, 0, 0]) - 17), ys)" for ys
    by (rule readLength_listReader) simp
  have b1: "parseBody listReader (0xFF # minimalFrame) [0x26]
      = (Continue, [0x11, 0x01] @ replicate 10 0x00 @ [0x28])"
    using l1 [of "[0, 0x11, 0x01] @ replicate 10 0x00 @ [0x28]"]
    by (simp add: parseBody_def andThen_def minimalFrame_def readVersion_listReader)
  have j1: "parseVideoPacketRequest listReader (([0x11, 0x01] @ replicate 10 0x00 @ [0x28]) @ [])
      = parseVideoPacketRequest listReader []"
    by (rule parse_listReader_junk) simp
  have p1: "parseVideoPacketRequest listReader ([0x26, 0xFF] @ minimalFrame) = Some (Inl EOF, [])"
    using b1 j1 by (simp add: parse_listReader_header parse_listReader_Nil)
  have v2: "validFrame ([0x26, 0, 0, 0, 0x11, 1] @ replicate 9 0 @ [0x26, 0x28])"
    by (simp add: validFrame_def payloadLength_def Uint32_def nth_append)
  have l2: "readLength listReader ([0xFF, 0, 0, 0] @ ys)
      = (Next ([0xFF, 0, 0, 0], ucast (Uint32 [0xFF, 0, 0, 0]) - 17), ys)" for ys
    by (rule readLength_listReader) simp
  have b2: "parseBody listReader
      ([0xFF, 0, 0, 0, 0x11, 1] @ replicate 9 0 @ [0x26, 0x28] @ minimalFrame) [0x26]
      = (Continue, [1] @ replicate 9 0 @ [0x26, 0x28] @ minimalFrame)"
    using l2 [of "[0x11, 1] @ replicate 9 0 @ [0x26, 0x28] @ minimalFrame"]
    by (simp add: parseBody_def andThen_def readVersion_listReader)
  have j2: "parseVideoPacketRequest listReader
      (([1] @ replicate 9 0) @ [0x26, 0x28] @ minimalFrame)
      = parseVideoPacketRequest listReader ([0x26, 0x28] @ minimalFrame)"
    by (rule parse_listReader_junk) simp
  have l3: "readLength listReader ([0x28, 0x26, 0, 0] @ ys)
      = (Next ([0x28, 0x26, 0, 0], ucast (Uint32 [0x28, 0x26, 0, 0]) - 17), ys)" for ys
    by (rule readLength_listReader) simp
  have b3: "parseBody listReader (0x28 # minimalFrame) [0x26]
      = (Continue, [0x11, 0x01] @ replicate 10 0x00 @ [0x28])"
    using l3 [of "[0, 0x11, 0x01] @ replicate 10 0x00 @ [0x28]"]
    by (simp add: parseBody_def andThen_def minimalFrame_def readVersion_listReader)
  have p3: "parseVideoPacketRequest listReader ([0x26, 0x28] @ minimalFrame) = Some (Inl EOF, [])"
    using b3 j1 by (simp add: parse_listReader_header parse_listReader_Nil)
  have p2: "parseVideoPacketRequest listReader
     ([0x26, 0xFF, 0, 0, 0, 0x11, 1] @ replicate 9 0 @ [0x26, 0x28] @ minimalFrame)
     = Some (Inl EOF, [])"
    using b2 j2 p3 by (simp add: parse_listReader_header)
  from validFrame_minimalFrame b1 p1 v2 p2 parse_listReader_Nil show ?thesis by blast
qed

text \<open>
  Claim C6 as amended. When the candidate that starts at a \<open>0x26\<close> byte is rejected and
  what the parser has not consumed by then is a run of bytes other than \<open>0x26\<close> followed by
  a valid frame \<open>g\<close>, the same call returns \<open>g\<close> byte for byte and leaves the reader just
  behind it.
\<close>

theorem C6_resync_amended:
  assumes "parseBody listReader s [0x26] = (Continue, junk @ g @ rest)"
    and "0x26 \<notin> set junk" and "validFrame g"
  shows "parseVideoPacketRequest listReader (0x26 # s) = Some (Inr g, rest)"
proof -
  have "parseVideoPacketRequest listReader (0x26 # s)
      = parseVideoPacketRequest listReader (junk @ g @ rest)"
    using assms(1) by (simp add: parse_listReader_header)
  also have "\<dots> = parseVideoPacketRequest listReader (g @ rest)"
    using assms(2) by (rule parse_listReader_junk)
  also have "\<dots> = Some (Inr g, rest)" using assms(3) by (rule parse_valid)
  finally show ?thesis .
qed

text \<open>A wrong version byte, one stray byte, then the minimal frame.\<close>

theorem C6_resync_amended_witness:
  "parseBody listReader ([0, 0, 0, 0x11, 2] @ [7] @ minimalFrame @ []) [0x26]
     = (Continue, [7] @ minimalFrame @ []) \<and>
   0x26 \<notin> set [7 :: byte] \<and> validFrame minimalFrame \<and>
   parseVideoPacketRequest listReader (0x26 # [0, 0, 0, 0x11, 2] @ [7] @ minimalFrame @ [])
     = Some (Inr minimalFrame, [])"
proof -
  have l: "readLength listReader ([0, 0, 0, 0x11] @ ys)
      = (Next ([0, 0, 0, 0x11], ucast (Uint32 [0, 0, 0, 0x11]) - 17), ys)" for ys
    by (rule readLength_listReader) simp
  have b: "parseBody listReader ([0, 0, 0, 0x11, 2] @ [7] @ minimalFrame @ []) [0x26]
      = (Continue, [7] @ minimalFrame @ [])"
    using l [of "[2, 7] @ minimalFrame"]
    by (simp add: parseBody_def andThen_def readVersion_listReader)
  have j: "0x26 \<notin> set [7 :: byte]" by simp
  from C6_resync_amended [OF b j validFrame_minimalFrame] b j validFrame_minimalFrame
  show ?thesis by blast
qed

text \<open>
  Claim C7 against the code. After the anchor frame the stream holds the three bytes
  \<open>1, 2, 3\<close> and ends. \<^verbatim>\<open>io.ReadFull\<close> fails with \<open>n = 3\<close>, and line 91 sends \<^verbatim>\<open>buf\<close>, the
  whole buffer of 4096 bytes: the three bytes followed by 4093 zero bytes that were never
  in the stream, not the 3 bytes read. Full chunks before that are sent as they are.
\<close>

theorem C7_partial_chunk_padded:
  "handleVideoPacketRaw listReader (minimalFrame @ [1, 2, 3]) None
     \<lparr>delivered = [], senders = 0, senderData = []\<rparr>
     = Some (\<lparr>delivered = [], senders = 1,
               senderData = [minimalFrame, [1, 2, 3] @ replicate 4093 0]\<rparr>, []) \<and>
   handleVideoPacketRaw listReader (minimalFrame @ replicate 4096 7 @ [1, 2, 3]) None
     \<lparr>delivered = [], senders = 0, senderData = []\<rparr>
     = Some (\<lparr>delivered = [], senders = 1,
               senderData = [minimalFrame, replicate 4096 7, [1, 2, 3] @ replicate 4093 0]\<rparr>, []) \<and>
   length ([1, 2, 3] @ replicate 4093 (0 :: byte)) = 4096"
proof -
  let ?e1 = "\<lparr>delivered = [], senders = Suc 0, senderData = [minimalFrame]\<rparr>"
  let ?t = "[1, 2, 3] :: byte list"
  have m: "VideoPacketMaxBufferSize - length ?t = 4093" "length ?t < VideoPacketMaxBufferSize"
    by (simp_all add: VideoPacketMaxBufferSize_def)
  have st: "streamRaw listReader ?t eff
      = Some (eff\<lparr>senderData := senderData eff @ [?t @ replicate 4093 0]\<rparr>, [])" for eff
    using streamRaw_listReader_short [of ?t eff] m by (simp)
  have fin: "rawLoop listReader [] eff = Some (eff, [])" for eff
    by (rule rawLoop_EOF [OF parse_listReader_Nil])
  have p1: "parseVideoPacketRequest listReader (minimalFrame @ ?t) = Some (Inr minimalFrame, ?t)"
    by (rule parse_valid [OF validFrame_minimalFrame])
  have r1: "rawLoop listReader (minimalFrame @ ?t) \<lparr>delivered = [], senders = Suc 0, senderData = []\<rparr>
      = Some (\<lparr>delivered = [], senders = Suc 0,
                senderData = [minimalFrame, ?t @ replicate 4093 0]\<rparr>, [])"
    by (subst rawLoop_frame [OF p1 st]) (simp add: fin)
  let ?c = "replicate 4096 (7 :: byte)"
  have c: "VideoPacketMaxBufferSize \<le> length (?c @ ?t)"
    "take VideoPacketMaxBufferSize (?c @ ?t) = ?c" "drop VideoPacketMaxBufferSize (?c @ ?t) = ?t"
    by (simp_all add: VideoPacketMaxBufferSize_def)
  have st2: "streamRaw listReader (?c @ ?t) eff
      = Some (eff\<lparr>senderData := senderData eff @ [?c, ?t @ replicate 4093 0]\<rparr>, [])" for eff
    by (subst streamRaw_listReader_full [OF c(1)])
      (simp only: c(2,3), simp add: st)
  have p2: "parseVideoPacketRequest listReader (minimalFrame @ ?c @ ?t)
      = Some (Inr minimalFrame, ?c @ ?t)"
    by (rule parse_valid [OF validFrame_minimalFrame])
  have r2: "rawLoop listReader (minimalFrame @ ?c @ ?t)
        \<lparr>delivered = [], senders = Suc 0, senderData = []\<rparr>
      = Some (\<lparr>delivered = [], senders = Suc 0,
                senderData = [minimalFrame, ?c, ?t @ replicate 4093 0]\<rparr>, [])"
    by (subst rawLoop_frame [OF p2 st2]) (simp add: fin)
  show ?thesis
    using r1 r2 by (simp add: handleVideoPacketRaw_def)
qed

text \<open>
  Claim C8. \<open>New\<close> counts the stream and starts one handler, chosen by the test
  \<open>mode = ModeRaw\<close> alone. The raw handler creates the sender and sends nothing on the
  shared channel; the discrete handler creates no sender, sends nothing to a sender, and
  sends on the shared channel exactly the frames that the successive calls of the parser
  return before the first error. On a finite byte sequence the started handler finishes.
\<close>

theorem C8_mode_selects_handler:
  "fst (New ModeRaw mode newSender n rd s eff) = n + 1 \<and>
   (mode = ModeRaw \<longrightarrow>
      snd (New ModeRaw mode newSender n rd s eff) = handleVideoPacketRaw rd s newSender eff) \<and>
   (mode \<noteq> ModeRaw \<longrightarrow>
      snd (New ModeRaw mode newSender n rd s eff) = handleVideoPacketRequest rd s eff) \<and>
   (mode = ModeRaw \<and> snd (New ModeRaw mode newSender n rd s eff) = Some (eff', s') \<longrightarrow>
      delivered eff' = delivered eff \<and> senders eff' = senders eff + 1) \<and>
   (mode \<noteq> ModeRaw \<and> snd (New ModeRaw mode newSender n rd s eff) = Some (eff', s') \<longrightarrow>
      senders eff' = senders eff \<and> senderData eff' = senderData eff \<and>
      (\<exists>fs e. delivered eff' = delivered eff @ fs \<and>
         successiveCalls (length fs + 1) rd s = Some (map Inr fs @ [Inl e], s'))) \<and>
   (\<exists>eff1 s1. snd (New ModeRaw mode newSender n listReader bs eff) = Some (eff1, s1))"
proof (intro conjI impI)
  show "fst (New ModeRaw mode newSender n rd s eff) = n + 1"
    by (simp add: New_def Let_def)
  show "snd (New ModeRaw mode newSender n rd s eff) = handleVideoPacketRaw rd s newSender eff"
    if "mode = ModeRaw" using that by (simp add: New_def Let_def)
  show "snd (New ModeRaw mode newSender n rd s eff) = handleVideoPacketRequest rd s eff"
    if "mode \<noteq> ModeRaw" using that by (simp add: New_def Let_def)
  show "delivered eff' = delivered eff" "senders eff' = senders eff + 1"
    if "mode = ModeRaw \<and> snd (New ModeRaw mode newSender n rd s eff) = Some (eff', s')"
  proof -
    from that have "handleVideoPacketRaw rd s newSender eff = Some (eff', s')"
      by (auto simp: New_def Let_def)
    from handleVideoPacketRaw_effects [OF this]
    show "delivered eff' = delivered eff" "senders eff' = senders eff + 1" by simp_all
  qed
  show "senders eff' = senders eff" "senderData eff' = senderData eff"
    "\<exists>fs e. delivered eff' = delivered eff @ fs \<and>
       successiveCalls (length fs + 1) rd s = Some (map Inr fs @ [Inl e], s')"
    if "mode \<noteq> ModeRaw \<and> snd (New ModeRaw mode newSender n rd s eff) = Some (eff', s')"
  proof -
    from that have "handleVideoPacketRequest rd s eff = Some (eff', s')"
      by (auto simp: New_def Let_def)
    from handleVideoPacketRequest_effects_aux [OF this]
    show "senders eff' = senders eff" "senderData eff' = senderData eff"
      "\<exists>fs e. delivered eff' = delivered eff @ fs \<and>
         successiveCalls (length fs + 1) rd s = Some (map Inr fs @ [Inl e], s')"
      by simp_all
  qed
  show "\<exists>eff1 s1. snd (New ModeRaw mode newSender n listReader bs eff) = Some (eff1, s1)"
  proof (cases "mode = ModeRaw")
    case True
    have "\<exists>eff1 s1. handleVideoPacketRaw listReader bs newSender eff = Some (eff1, s1)"
      using rawLoop_listReader_total [of bs "eff\<lparr>senders := senders eff + 1\<rparr>"]
      by (cases newSender) (simp_all add: handleVideoPacketRaw_def)
    with True show ?thesis by (simp add: New_def Let_def)
  next
    case False
    with handleVideoPacketRequest_listReader_total [of bs eff] show ?thesis
      by (simp add: New_def Let_def)
  qed
qed

text \<open>
  The stream is the minimal frame; the mode constant is 1. With mode 1 the frame goes to
  the sender, with mode 0 to the shared channel.
\<close>

theorem C8_mode_selects_handler_witness:
  "snd (New (1 :: nat) 1 None 0 listReader minimalFrame
          \<lparr>delivered = [], senders = 0, senderData = []\<rparr>)
     = Some (\<lparr>delivered = [], senders = 1, senderData = [minimalFrame]\<rparr>, []) \<and>
   snd (New (1 :: nat) 0 None 0 listReader minimalFrame
          \<lparr>delivered = [], senders = 0, senderData = []\<rparr>)
     = Some (\<lparr>delivered = [minimalFrame], senders = 0, senderData = []\<rparr>, []) \<and>
   fst (New (1 :: nat) 0 None 0 listReader minimalFrame
          \<lparr>delivered = [], senders = 0, senderData = []\<rparr>) = 1"
proof -
  let ?e = "\<lparr>delivered = [], senders = 0, senderData = []\<rparr>"
  have raw: "handleVideoPacketRaw listReader minimalFrame None ?e
      = Some (\<lparr>delivered = [], senders = 1, senderData = [minimalFrame]\<rparr>, [])"
    using rawLoop_frame [OF parse_minimalFrame streamRaw_listReader_Nil,
        of "\<lparr>delivered = [], senders = Suc 0, senderData = []\<rparr>"]
    by (simp add: handleVideoPacketRaw_def rawLoop_EOF [OF parse_listReader_Nil])
  have req: "handleVideoPacketRequest listReader minimalFrame ?e
      = Some (\<lparr>delivered = [minimalFrame], senders = 0, senderData = []\<rparr>, [])"
    by (simp add: handleVideoPacketRequest_frame [OF parse_minimalFrame]
        handleVideoPacketRequest_EOF [OF parse_listReader_Nil])
  note C8 = C8_mode_selects_handler [where ModeRaw = "1 :: nat" and newSender = None
      and n = 0 and rd = listReader and s = minimalFrame and eff = ?e]
  from C8 [where mode = 1] raw
  have a: "snd (New (1 :: nat) 1 None 0 listReader minimalFrame ?e)
      = Some (\<lparr>delivered = [], senders = 1, senderData = [minimalFrame]\<rparr>, [])"
    by simp
  from C8 [where mode = 0] req
  have b: "snd (New (1 :: nat) 0 None 0 listReader minimalFrame ?e)
      = Some (\<lparr>delivered = [minimalFrame], senders = 0, senderData = []\<rparr>, [])"
    and c: "fst (New (1 :: nat) 0 None 0 listReader minimalFrame ?e) = 1"
    by simp_all
  from a b c show ?thesis by blast
qed

text \<open>
  Claim C2. A candidate whose length field was read without error and is below 17, or
  above \<open>17 + 10 * 1024 * 1024\<close>, is never returned: the pass of the loop ends in
  \<^verbatim>\<open>continue\<close>, and the call goes on as a fresh scan for \<open>0x26\<close> from the reader reached,
  unless the stream ends first and the call returns the end-of-stream error. (The test
  \<^verbatim>\<open>dataLength < 0\<close> never fires; the wrapped value is caught by the 10 MiB test.)
  So with a reader whose only error is end-of-stream, the length field of every frame a
  call returns lies between 17 and \<open>17 + 10 * 1024 * 1024\<close>.
\<close>

theorem C2_invalid_length_rejected:
  assumes "scanHeader rd r0 (replicate 1 0) = Some (Inr proto, r)"
    and "Read rd r (replicate 4 0) = (lengthb, n, None, r2)"
    and "unat (Uint32 lengthb) < 17 \<or> 17 + 10 * 1024 * 1024 < unat (Uint32 lengthb)"
  shows "(\<forall>f r'. parseBody rd r proto \<noteq> (Next f, r')) \<and>
         (\<exists>r'. (parseBody rd r proto = (Continue, r') \<and>
                 parseVideoPacketRequest rd r0 = parseVideoPacketRequest rd r') \<or>
                (parseBody rd r proto = (Fail EOF, r') \<and>
                 parseVideoPacketRequest rd r0 = Some (Inl EOF, r'))) \<and>
         (\<forall>q f q'. eofOnly rd \<and> parseVideoPacketRequest rd q = Some (Inr f, q') \<longrightarrow>
            17 \<le> unat (Uint32 (take 4 (drop 1 f))) \<and>
            unat (Uint32 (take 4 (drop 1 f))) \<le> 17 + 10 * 1024 * 1024)"
proof (intro conjI)
  show nn: "\<forall>f r'. parseBody rd r proto \<noteq> (Next f, r')"
    using parseBody_bad_length [OF assms(2,3)] by blast
  obtain out r' where pb: "parseBody rd r proto = (out, r')"
    by (cases "parseBody rd r proto")
  show "\<exists>r'. (parseBody rd r proto = (Continue, r') \<and>
                 parseVideoPacketRequest rd r0 = parseVideoPacketRequest rd r') \<or>
                (parseBody rd r proto = (Fail EOF, r') \<and>
                 parseVideoPacketRequest rd r0 = Some (Inl EOF, r'))"
  proof (cases out)
    case (Next f)
    with pb nn show ?thesis by simp
  next
    case Continue
    with pb parse_unfold_Continue [OF assms(1)] show ?thesis by blast
  next
    case (Fail e)
    with pb have "e = EOF" by (simp add: parseBody_Fail)
    with pb Fail parse_unfold_Fail [OF assms(1)] show ?thesis by blast
  qed
  show "\<forall>q f q'. eofOnly rd \<and> parseVideoPacketRequest rd q = Some (Inr f, q') \<longrightarrow>
            17 \<le> unat (Uint32 (take 4 (drop 1 f))) \<and>
            unat (Uint32 (take 4 (drop 1 f))) \<le> 17 + 10 * 1024 * 1024"
  proof (intro allI impI)
    fix q f q'
    assume a: "eofOnly rd \<and> parseVideoPacketRequest rd q = Some (Inr f, q')"
    then have "eofOnly rd" "parseVideoPacketRequest rd q = Some (Inr f, q')"
      by simp_all
    then show "17 \<le> unat (Uint32 (take 4 (drop 1 f))) \<and>
            unat (Uint32 (take 4 (drop 1 f))) \<le> 17 + 10 * 1024 * 1024"
      by (rule parse_frame_length)
  qed
qed

text \<open>
  A candidate with length field 16 in front of the minimal frame: the pass ends in
  \<^verbatim>\<open>continue\<close> before the tail byte is read, and the call returns the minimal frame,
  whose length field is 17.
\<close>

theorem C2_invalid_length_rejected_witness:
  "scanHeader listReader
     ([0x26, 0, 0, 0, 0x10, 1, 0, 0, 0, 0, 0, 0, 0, 0, 0, 0, 0x28] @ minimalFrame) (replicate 1 0)
     = Some (Inr [0x26], [0, 0, 0, 0x10, 1, 0, 0, 0, 0, 0, 0, 0, 0, 0, 0, 0x28] @ minimalFrame) \<and>
   Read listReader ([0, 0, 0, 0x10, 1, 0, 0, 0, 0, 0, 0, 0, 0, 0, 0, 0x28] @ minimalFrame)
     (replicate 4 0)
     = ([0, 0, 0, 0x10], 4, None, [1, 0, 0, 0, 0, 0, 0, 0, 0, 0, 0, 0x28] @ minimalFrame) \<and>
   unat (Uint32 [0, 0, 0, 0x10]) < 17 \<and>
   parseBody listReader ([0, 0, 0, 0x10, 1, 0, 0, 0, 0, 0, 0, 0, 0, 0, 0, 0x28] @ minimalFrame) [0x26]
     = (Continue, 0x28 # minimalFrame) \<and>
   parseVideoPacketRequest listReader
     ([0x26, 0, 0, 0, 0x10, 1, 0, 0, 0, 0, 0, 0, 0, 0, 0, 0, 0x28] @ minimalFrame)
     = parseVideoPacketRequest listReader (0x28 # minimalFrame) \<and>
   eofOnly listReader \<and>
   parseVideoPacketRequest listReader
     ([0x26, 0, 0, 0, 0x10, 1, 0, 0, 0, 0, 0, 0, 0, 0, 0, 0, 0x28] @ minimalFrame)
     = Some (Inr minimalFrame, []) \<and>
   17 \<le> unat (Uint32 (take 4 (drop 1 minimalFrame)))"
proof -
  let ?c = "[0, 0, 0, 0x10, 1, 0, 0, 0, 0, 0, 0, 0, 0, 0, 0, 0x28] @ minimalFrame"
  have h1: "scanHeader listReader (0x26 # ?c) (replicate 1 0) = Some (Inr [0x26], ?c)"
    by (simp add: scanHeader_listReader)
  have h2: "Read listReader ?c (replicate 4 0)
     = ([0, 0, 0, 0x10], 4, None, [1, 0, 0, 0, 0, 0, 0, 0, 0, 0, 0, 0x28] @ minimalFrame)"
    using Read_listReader_exact [of "[0, 0, 0, 0x10]" 4
        "[1, 0, 0, 0, 0, 0, 0, 0, 0, 0, 0, 0x28] @ minimalFrame"] by simp
  have h3: "unat (Uint32 [0, 0, 0, 0x10]) < 17" by (simp add: Uint32_def)
  have rl: "readLength listReader ?c
      = (Next ([0, 0, 0, 0x10], ucast (Uint32 [0, 0, 0, 0x10]) - 17),
         [1, 0, 0, 0, 0, 0, 0, 0, 0, 0, 0, 0x28] @ minimalFrame)"
    using readLength_listReader [of "[0, 0, 0, 0x10]"
        "[1, 0, 0, 0, 0, 0, 0, 0, 0, 0, 0, 0x28] @ minimalFrame"] by simp
  have rr: "readReserved listReader ([0, 0, 0, 0, 0, 0, 0, 0, 0, 0, 0x28] @ minimalFrame)
      = (Next [0, 0, 0, 0, 0, 0, 0, 0, 0, 0], 0x28 # minimalFrame)"
    using readReserved_listReader [of "[0, 0, 0, 0, 0, 0, 0, 0, 0, 0]" "0x28 # minimalFrame"]
    by simp
  have rd: "readData listReader (0x28 # minimalFrame) (ucast (Uint32 [0, 0, 0, 0x10]) - 17)
      = (Continue, 0x28 # minimalFrame)"
    by (rule readData_too_long) (simp add: Uint32_def)
  have pb: "parseBody listReader ?c [0x26] = (Continue, 0x28 # minimalFrame)"
    using rl rr rd by (simp add: parseBody_def andThen_def readVersion_listReader)
  have h3': "unat (Uint32 [0, 0, 0, 0x10]) < 17 \<or>
      17 + 10 * 1024 * 1024 < unat (Uint32 [0, 0, 0, 0x10])"
    using h3 by simp
  note C2 = C2_invalid_length_rejected [OF h1 h2 h3']
  from C2 [THEN conjunct2, THEN conjunct1]
  have eq: "parseVideoPacketRequest listReader (0x26 # ?c)
      = parseVideoPacketRequest listReader (0x28 # minimalFrame)"
    using pb by auto
  have "parseVideoPacketRequest listReader (0x28 # minimalFrame) = Some (Inr minimalFrame, [])"
    by (simp add: parse_listReader_skip parse_minimalFrame)
  with eq have ret: "parseVideoPacketRequest listReader (0x26 # ?c) = Some (Inr minimalFrame, [])"
    by simp
  from C2 [THEN conjunct2, THEN conjunct2, rule_format, of "0x26 # ?c" minimalFrame "[]"]
    eofOnly_listReader ret
  have ge: "17 \<le> unat (Uint32 (take 4 (drop 1 minimalFrame)))"
    by blast
  from h1 h2 h3 pb eq ret eofOnly_listReader ge show ?thesis
    by (simp only: append_Cons append_Nil)
qed

end
